theory Spec2Isabelle
  imports Main "HOL-Library.Word"
begin

section \<open>The Vienna Game Job System: data model\<close>

text \<open>
  The embedding follows \<^verbatim>\<open>GameJobSystem.h\<close>. Operations are state transformers on
  the scheduler state; one call of an operation is one atomic step (mutexes and the
  condition variable carry no state of their own in this sequential reading).
  Undefined behaviour of the C++ source (a null dereference, an index outside a
  vector, a call of an empty \<^verbatim>\<open>std::function\<close>, a remainder by zero) and loops
  that do not finish are results of their own, on the left of a sum.
\<close>

type_synonym u32 = "32 word"

text \<open>
  A \<^verbatim>\<open>Job *\<close> is the address of a slot: the number of the pool whose segments hold the
  slot, and the slot's flat index \<open>i\<close>, which is entry \<open>i mod m_listLength\<close> of segment
  \<open>i div m_listLength\<close>. \<^verbatim>\<open>nullptr\<close> is \<open>None\<close>.
\<close>

type_synonym jptr = "nat \<times> nat"

text \<open>
  \<^verbatim>\<open>Function = std::function<void()>\<close>. The scheduler never looks inside a body; what
  a body can do to the scheduler is call its public interface, so a non-empty body is
  the sequence of interface calls it makes. \<open>EmptyFunction\<close> is the \<^verbatim>\<open>std::function\<close>
  that holds no target.
\<close>

datatype Function = EmptyFunction | Body "call list"
and call =
    AddJob Function u32
  | AddChildJob Function
  | AddChildJobPool Function u32
  | OnFinishedAddJob Function
  | OnFinishedTerminatePool
  | PlayBackPool u32 Function
  | ResetPool u32
  | Terminate

datatype error =
    OutOfFuel
  | Diverges
  | NullPointer
  | OutOfRange
  | BadFunctionCall
  | DivisionByZero

record Job =
  m_available :: bool
  m_poolNumber :: u32
  m_function :: "Function option"
  m_parentJob :: "jptr option"
  m_numUnfinishedChildren :: u32
  m_onFinishedJob :: "jptr option"
  m_pFirstChild :: "jptr option"
  m_pLastChild :: "jptr option"
  m_pNextSibling :: "jptr option"

text \<open>
  The constructors leave three members without an initial value: \<^verbatim>\<open>Job::m_available\<close>,
  \<^verbatim>\<open>Job::m_pLastChild\<close> and \<^verbatim>\<open>JobPool::numJobsLeftToPlay\<close>. What a new object holds
  there is a parameter of the model.
\<close>

record uninit =
  u_available :: bool
  u_pLastChild :: "jptr option"
  u_numJobsLeftToPlay :: u32

definition Job_new :: "uninit \<Rightarrow> Job" where
  "Job_new u =
     \<lparr> m_available = u_available u, m_poolNumber = 0, m_function = None,
       m_parentJob = None, m_numUnfinishedChildren = 0, m_onFinishedJob = None,
       m_pFirstChild = None, m_pLastChild = u_pLastChild u, m_pNextSibling = None \<rparr>"

definition m_listLength :: nat where
  "m_listLength = 4096"

record JobPool =
  jobIndex :: u32
  jobLists :: "Job list list"
  numJobsLeftToPlay :: u32
  isPlayedBack :: bool
  pOnPlaybackFinishedJob :: "jptr option"

definition JobList_new :: "uninit \<Rightarrow> Job list" where
  "JobList_new u = replicate m_listLength (Job_new u)"

definition JobPool_new :: "uninit \<Rightarrow> JobPool" where
  "JobPool_new u =
     \<lparr> jobIndex = 0, jobLists = [JobList_new u],
       numJobsLeftToPlay = u_numJobsLeftToPlay u, isPlayedBack = False,
       pOnPlaybackFinishedJob = None \<rparr>"

record JobMemory =
  m_jobPools :: "JobPool list"
  m_uninit :: uninit

definition JobMemory_new :: "uninit \<Rightarrow> JobMemory" where
  "JobMemory_new u = \<lparr> m_jobPools = [JobPool_new u], m_uninit = u \<rparr>"

subsection \<open>Reading and writing a slot through a pointer\<close>

definition pool_job :: "JobPool \<Rightarrow> nat \<Rightarrow> Job" where
  "pool_job P i = jobLists P ! (i div m_listLength) ! (i mod m_listLength)"

definition pool_job_upd :: "nat \<Rightarrow> (Job \<Rightarrow> Job) \<Rightarrow> JobPool \<Rightarrow> JobPool" where
  "pool_job_upd i f P =
     P\<lparr> jobLists := (jobLists P)
          [i div m_listLength :=
             (jobLists P ! (i div m_listLength))
               [i mod m_listLength := f (pool_job P i)]] \<rparr>"

definition job_at :: "JobMemory \<Rightarrow> jptr \<Rightarrow> Job" where
  "job_at M p = pool_job (m_jobPools M ! fst p) (snd p)"

definition job_upd :: "jptr \<Rightarrow> (Job \<Rightarrow> Job) \<Rightarrow> JobMemory \<Rightarrow> JobMemory" where
  "job_upd p f M =
     M\<lparr> m_jobPools := (m_jobPools M)
          [fst p := pool_job_upd (snd p) f (m_jobPools M ! fst p)] \<rparr>"

section \<open>JobMemory\<close>

text \<open>
  \<^verbatim>\<open>resetPool\<close>: the missing pools are created first. The creating loop counts a
  \<^verbatim>\<open>uint32_t\<close> up to and including \<open>poolNumber\<close>, so for the largest pool number its
  condition never fails. \<^verbatim>\<open>m_jobPools\<close> is never empty (the constructor creates pool 0),
  so \<^verbatim>\<open>size() - 1\<close> does not wrap.
\<close>

definition resetPool :: "u32 \<Rightarrow> JobMemory \<Rightarrow> error + JobMemory" where
  "resetPool poolNumber M =
     (if unat poolNumber > length (m_jobPools M) - 1 \<and> poolNumber = - 1 then Inl Diverges
      else
        let M1 =
          (if unat poolNumber > length (m_jobPools M) - 1
           then M\<lparr> m_jobPools := m_jobPools M @
                  replicate (unat poolNumber + 1 - length (m_jobPools M))
                    (JobPool_new (m_uninit M)) \<rparr>
           else M)
        in Inr (M1\<lparr> m_jobPools := (m_jobPools M1)
                    [unat poolNumber := (m_jobPools M1 ! unat poolNumber)\<lparr> jobIndex := 0 \<rparr>] \<rparr>))"

text \<open>
  \<^verbatim>\<open>getNextJob\<close>: take the pool's allocation index and add one to it (the counter is a
  \<^verbatim>\<open>uint32_t\<close> and wraps), append a segment when the index lies behind the last one.
  At most one segment is appended, so an index further behind is outside the vector of
  segments when the slot's address is taken.
\<close>

definition getNextJob :: "u32 \<Rightarrow> JobMemory \<Rightarrow> error + (jptr \<times> JobMemory)" where
  "getNextJob poolNumber M =
     (case (if unat poolNumber > length (m_jobPools M) - 1
            then resetPool poolNumber M else Inr M) of
        Inl e \<Rightarrow> Inl e
      | Inr M1 \<Rightarrow>
          let pPool = m_jobPools M1 ! unat poolNumber;
              index = jobIndex pPool;
              pPool1 = pPool\<lparr> jobIndex := index + 1 \<rparr>;
              pPool2 =
                (if unat index > length (jobLists pPool1) * m_listLength - 1
                 then pPool1\<lparr> jobLists := jobLists pPool1 @ [JobList_new (m_uninit M1)] \<rparr>
                 else pPool1)
          in if unat index div m_listLength < length (jobLists pPool2)
             then Inr ((unat poolNumber, unat index),
                       M1\<lparr> m_jobPools := (m_jobPools M1)[unat poolNumber := pPool2] \<rparr>)
             else Inl OutOfRange)"

text \<open>
  \<^verbatim>\<open>setParentJob\<close>, called on the new Job \<open>this\<close>. The statements run in the source's
  order on the store, so a parent that is the same slot as \<open>this\<close> is treated as the
  code treats it. With a first child and no last child the code dereferences null.
\<close>

definition setParentJob :: "jptr \<Rightarrow> jptr \<Rightarrow> JobMemory \<Rightarrow> error + JobMemory" where
  "setParentJob this parentJob M =
     (let M1 = job_upd this (\<lambda>J. J\<lparr> m_parentJob := Some parentJob \<rparr>) M;
          M2 = job_upd parentJob
                 (\<lambda>J. J\<lparr> m_numUnfinishedChildren := m_numUnfinishedChildren J + 1 \<rparr>) M1
      in if m_pFirstChild (job_at M2 parentJob) \<noteq> None then
           (case m_pLastChild (job_at M2 parentJob) of
              None \<Rightarrow> Inl NullPointer
            | Some l \<Rightarrow>
                Inr (job_upd parentJob (\<lambda>J. J\<lparr> m_pLastChild := Some this \<rparr>)
                      (job_upd l (\<lambda>J. J\<lparr> m_pNextSibling := Some this \<rparr>) M2)))
         else
           Inr (job_upd parentJob (\<lambda>J. J\<lparr> m_pLastChild := Some this \<rparr>)
                 (job_upd parentJob (\<lambda>J. J\<lparr> m_pFirstChild := Some this \<rparr>) M2)))"

text \<open>
  The probing loop of \<^verbatim>\<open>allocateJob\<close>: take the next slot until one is available. It
  has no bound in the source; the first argument bounds the number of slots probed.
\<close>

fun allocateJob_probe :: "nat \<Rightarrow> u32 \<Rightarrow> JobMemory \<Rightarrow> error + (jptr \<times> JobMemory)" where
  "allocateJob_probe 0 poolNumber M = Inl OutOfFuel"
| "allocateJob_probe (Suc n) poolNumber M =
     (case getNextJob poolNumber M of
        Inl e \<Rightarrow> Inl e
      | Inr (pJob, M1) \<Rightarrow>
          if m_available (job_at M1 pJob) then Inr (pJob, M1)
          else allocateJob_probe n poolNumber M1)"

definition allocateJob ::
  "nat \<Rightarrow> jptr option \<Rightarrow> u32 \<Rightarrow> JobMemory \<Rightarrow> error + (jptr \<times> JobMemory)" where
  "allocateJob fuel pParent poolNumber M =
     (case allocateJob_probe fuel poolNumber M of
        Inl e \<Rightarrow> Inl e
      | Inr (pJob, M1) \<Rightarrow>
          let M2 = job_upd pJob
                (\<lambda>J. J\<lparr> m_poolNumber := poolNumber, m_onFinishedJob := None,
                        m_pFirstChild := None, m_pLastChild := None,
                        m_pNextSibling := None \<rparr>) M1
          in (case pParent of
                None \<Rightarrow> Inr (pJob, M2)
              | Some p \<Rightarrow>
                  (case setParentJob pJob p M2 of
                     Inl e \<Rightarrow> Inl e
                   | Inr M3 \<Rightarrow> Inr (pJob, M3))))"

section \<open>JobQueue\<close>

text \<open>A \<^verbatim>\<open>std::queue<Job*>\<close>: the front is the head of the list. It can hold null.\<close>

record JobQueue =
  m_queue :: "jptr option list"

definition JobQueue_new :: JobQueue where
  "JobQueue_new = \<lparr> m_queue = [] \<rparr>"

definition push :: "jptr option \<Rightarrow> JobQueue \<Rightarrow> JobQueue" where
  "push pJob q = q\<lparr> m_queue := m_queue q @ [pJob] \<rparr>"

definition pop :: "JobQueue \<Rightarrow> jptr option \<times> JobQueue" where
  "pop q =
     (if length (m_queue q) = 0 then (None, q)
      else (let pJob = hd (m_queue q) in (pJob, q\<lparr> m_queue := tl (m_queue q) \<rparr>)))"

definition steal :: "JobQueue \<Rightarrow> jptr option \<times> JobQueue" where
  "steal q =
     (if length (m_queue q) = 0 then (None, q)
      else (let pJob = hd (m_queue q) in (pJob, q\<lparr> m_queue := tl (m_queue q) \<rparr>)))"

section \<open>JobSystem\<close>

text \<open>
  The log of the scheduler: the calls of Job bodies (what the debug build prints as
  ``Thread n runs id'') and the calls of \<^verbatim>\<open>Job::onFinished\<close>, in the order they
  happen. No operation reads it.
\<close>

datatype event = Invoked jptr | Finished jptr

text \<open>
  The state after the constructor has run and every worker has registered itself:
  \<open>m_threads\<close> holds the workers' thread identities, worker \<open>i\<close> being the one that
  drew index \<open>i\<close>. \<^verbatim>\<open>std::rand()\<close> returns the next value of \<open>rand_seq\<close>.
\<close>

record JobSystem =
  m_threads :: "nat list"
  m_jobPointers :: "jptr option list"
  m_threadIndexMap :: "nat \<rightharpoonup> u32"
  m_terminate :: bool
  m_jobQueues :: "JobQueue list"
  m_numJobs :: u32
  memory :: JobMemory
  rand_seq :: "nat \<Rightarrow> nat"
  rand_pos :: nat
  trace :: "event list"

definition JobSystem_new ::
  "nat list \<Rightarrow> u32 \<Rightarrow> uninit \<Rightarrow> (nat \<Rightarrow> nat) \<Rightarrow> error + JobSystem" where
  "JobSystem_new tids numPools u rnd =
     (case resetPool (numPools - 1) (JobMemory_new u) of
        Inl e \<Rightarrow> Inl e
      | Inr M \<Rightarrow>
          Inr \<lparr> m_threads = tids,
                m_jobPointers = replicate (length tids) None,
                m_threadIndexMap = map_of (zip tids (map of_nat [0 ..< length tids])),
                m_terminate = False,
                m_jobQueues = replicate (length tids) JobQueue_new,
                m_numJobs = 0, memory = M, rand_seq = rnd, rand_pos = 0, trace = [] \<rparr>)"

definition the_job :: "JobSystem \<Rightarrow> jptr \<Rightarrow> Job" where
  "the_job s p = job_at (memory s) p"

definition upd_job :: "jptr \<Rightarrow> (Job \<Rightarrow> Job) \<Rightarrow> JobSystem \<Rightarrow> JobSystem" where
  "upd_job p f s = s\<lparr> memory := job_upd p f (memory s) \<rparr>"

definition rand :: "JobSystem \<Rightarrow> nat \<times> JobSystem" where
  "rand s = (rand_seq s (rand_pos s), s\<lparr> rand_pos := rand_pos s + 1 \<rparr>)"

definition terminate :: "JobSystem \<Rightarrow> JobSystem" where
  "terminate s = s\<lparr> m_terminate := True \<rparr>"

text \<open>
  \<^verbatim>\<open>getThreadNumber\<close> reads the map with \<^verbatim>\<open>operator[]\<close>, which inserts the value 0 for
  a key that is not there. The thread that calls is the first argument.
\<close>

definition getThreadNumber :: "nat \<Rightarrow> JobSystem \<Rightarrow> u32 \<times> JobSystem" where
  "getThreadNumber tid s =
     (case m_threadIndexMap s tid of
        Some i \<Rightarrow> (i, s)
      | None \<Rightarrow> (0, s\<lparr> m_threadIndexMap := (m_threadIndexMap s)(tid \<mapsto> 0) \<rparr>))"

definition getJobPointer :: "nat \<Rightarrow> JobSystem \<Rightarrow> error + (jptr option \<times> JobSystem)" where
  "getJobPointer tid s =
     (let (i, s1) = getThreadNumber tid s
      in if unat i < length (m_jobPointers s1) then Inr (m_jobPointers s1 ! unat i, s1)
         else Inl OutOfRange)"

text \<open>\<^verbatim>\<open>addJob(Job *pJob)\<close>: count the job and push it on a random queue.\<close>

definition addJob_ptr :: "jptr option \<Rightarrow> JobSystem \<Rightarrow> error + JobSystem" where
  "addJob_ptr pJob s =
     (let s1 = s\<lparr> m_numJobs := m_numJobs s + 1 \<rparr>;
          (r, s2) = rand s1
      in if length (m_threads s2) = 0 then Inl DivisionByZero
         else
           let idx = r mod length (m_threads s2)
           in if idx < length (m_jobQueues s2)
              then Inr (s2\<lparr> m_jobQueues :=
                          (m_jobQueues s2)[idx := push pJob (m_jobQueues s2 ! idx)] \<rparr>)
              else Inl OutOfRange)"

text \<open>
  \<^verbatim>\<open>Job::onFinished\<close> and \<^verbatim>\<open>Job::childFinished\<close> call each other up the chain of
  parents; the first argument bounds the length of the chain that is followed.
  \<^verbatim>\<open>fetch_add(-1)\<close> returns the value before the decrement.
\<close>

fun onFinished :: "nat \<Rightarrow> jptr \<Rightarrow> JobSystem \<Rightarrow> error + JobSystem"
and childFinished :: "nat \<Rightarrow> jptr \<Rightarrow> JobSystem \<Rightarrow> error + JobSystem" where
  "onFinished 0 this s = Inl OutOfFuel"
| "onFinished (Suc n) this s =
     (let s0 = s\<lparr> trace := trace s @ [Finished this] \<rparr>
      in case (case m_parentJob (the_job s0 this) of
                 None \<Rightarrow> Inr s0
               | Some p \<Rightarrow> childFinished n p s0) of
           Inl e \<Rightarrow> Inl e
         | Inr s1 \<Rightarrow>
             (case (case m_onFinishedJob (the_job s1 this) of
                      None \<Rightarrow> Inr s1
                    | Some f \<Rightarrow> addJob_ptr (Some f) s1) of
                Inl e \<Rightarrow> Inl e
              | Inr s2 \<Rightarrow>
                  Inr (upd_job this (\<lambda>J. J\<lparr> m_available := True \<rparr>)
                        (s2\<lparr> m_numJobs := m_numJobs s2 - 1 \<rparr>))))"
| "childFinished n this s =
     (let numLeft = m_numUnfinishedChildren (the_job s this);
          s1 = upd_job this
                 (\<lambda>J. J\<lparr> m_numUnfinishedChildren := m_numUnfinishedChildren J - 1 \<rparr>) s
      in if numLeft = 1 then onFinished n this s1 else Inr s1)"

subsection \<open>The public interface, as called by thread \<open>tid\<close>\<close>

definition setFunction :: "jptr \<Rightarrow> Function \<Rightarrow> JobMemory \<Rightarrow> JobMemory" where
  "setFunction this func M = job_upd this (\<lambda>J. J\<lparr> m_function := Some func \<rparr>) M"

definition setOnFinished :: "jptr \<Rightarrow> jptr \<Rightarrow> JobMemory \<Rightarrow> JobMemory" where
  "setOnFinished this pJob M = job_upd this (\<lambda>J. J\<lparr> m_onFinishedJob := Some pJob \<rparr>) M"

definition playBackPool ::
  "nat \<Rightarrow> nat \<Rightarrow> u32 \<Rightarrow> Function \<Rightarrow> JobSystem \<Rightarrow> error + JobSystem" where
  "playBackPool fuel tid playPoolNumber onFinishedFunction s =
     (case getJobPointer tid s of
        Inl e \<Rightarrow> Inl e
      | Inr (pCurrentJob, s1) \<Rightarrow>
          let pParentJob =
                (case pCurrentJob of None \<Rightarrow> None | Some c \<Rightarrow> m_parentJob (the_job s1 c));
              poolNumber =
                (case pCurrentJob of None \<Rightarrow> 0 | Some c \<Rightarrow> m_poolNumber (the_job s1 c))
          in (case allocateJob fuel pParentJob poolNumber (memory s1) of
                Inl e \<Rightarrow> Inl e
              | Inr (ponFinishedJob, M1) \<Rightarrow>
                  let s2 = s1\<lparr> memory := setFunction ponFinishedJob onFinishedFunction M1 \<rparr>
                  in if unat playPoolNumber < length (m_jobPools (memory s2)) then
                       (let pPool = m_jobPools (memory s2) ! unat playPoolNumber
                        in if jobIndex pPool = 0 then addJob_ptr (Some ponFinishedJob) s2
                           else
                             addJob_ptr (Some (unat playPoolNumber, 0))
                               (s2\<lparr> memory := (memory s2)\<lparr> m_jobPools :=
                                    (m_jobPools (memory s2))
                                      [unat playPoolNumber :=
                                         pPool\<lparr> isPlayedBack := True,
                                                numJobsLeftToPlay := jobIndex pPool,
                                                pOnPlaybackFinishedJob := Some ponFinishedJob \<rparr>] \<rparr> \<rparr>))
                     else Inl OutOfRange))"

text \<open>\<^verbatim>\<open>addJob(Function func, uint32_t poolNumber, std::string id)\<close>.\<close>

definition addJob :: "nat \<Rightarrow> nat \<Rightarrow> Function \<Rightarrow> u32 \<Rightarrow> JobSystem \<Rightarrow> error + JobSystem" where
  "addJob fuel tid func poolNumber s =
     (case getJobPointer tid s of
        Inl e \<Rightarrow> Inl e
      | Inr (pCurrentJob, s1) \<Rightarrow>
          if pCurrentJob = None then
            (case allocateJob fuel None poolNumber (memory s1) of
               Inl e \<Rightarrow> Inl e
             | Inr (pNew, M1) \<Rightarrow>
                 addJob_ptr (Some pNew) (s1\<lparr> memory := setFunction pNew func M1 \<rparr>))
          else
            (case allocateJob fuel None poolNumber (memory s1) of
               Inl e \<Rightarrow> Inl e
             | Inr (pJob, M1) \<Rightarrow>
                 addJob_ptr (Some pJob) (s1\<lparr> memory := setFunction pJob func M1 \<rparr>)))"

text \<open>\<^verbatim>\<open>addChildJob(Function func, uint32_t poolNumber, std::string id)\<close>.\<close>

definition addChildJob ::
  "nat \<Rightarrow> nat \<Rightarrow> Function \<Rightarrow> u32 \<Rightarrow> JobSystem \<Rightarrow> error + JobSystem" where
  "addChildJob fuel tid func poolNumber s =
     (if unat poolNumber < length (m_jobPools (memory s)) then
        if isPlayedBack (m_jobPools (memory s) ! unat poolNumber) then Inr s
        else
          (case getJobPointer tid s of
             Inl e \<Rightarrow> Inl e
           | Inr (pCurrentJob, s1) \<Rightarrow>
               (case allocateJob fuel pCurrentJob poolNumber (memory s1) of
                  Inl e \<Rightarrow> Inl e
                | Inr (pJob, M1) \<Rightarrow>
                    addJob_ptr (Some pJob) (s1\<lparr> memory := setFunction pJob func M1 \<rparr>)))
      else Inl OutOfRange)"

text \<open>
  \<^verbatim>\<open>addChildJob(Function func)\<close>: the pool is the one of the current Job, read through
  the current-job pointer without a null check.
\<close>

definition addChildJob_current ::
  "nat \<Rightarrow> nat \<Rightarrow> Function \<Rightarrow> JobSystem \<Rightarrow> error + JobSystem" where
  "addChildJob_current fuel tid func s =
     (case getJobPointer tid s of
        Inl e \<Rightarrow> Inl e
      | Inr (None, s1) \<Rightarrow> Inl NullPointer
      | Inr (Some c, s1) \<Rightarrow> addChildJob fuel tid func (m_poolNumber (the_job s1 c)) s1)"

text \<open>
  \<^verbatim>\<open>onFinishedAddJob\<close>: the playback test reads the current Job's pool number before
  the null tests of the next two lines, so a null current Job is dereferenced.
\<close>

definition onFinishedAddJob ::
  "nat \<Rightarrow> nat \<Rightarrow> Function \<Rightarrow> JobSystem \<Rightarrow> error + JobSystem" where
  "onFinishedAddJob fuel tid func s =
     (case getJobPointer tid s of
        Inl e \<Rightarrow> Inl e
      | Inr (None, s1) \<Rightarrow> Inl NullPointer
      | Inr (Some pCurrentJob, s1) \<Rightarrow>
          if unat (m_poolNumber (the_job s1 pCurrentJob)) < length (m_jobPools (memory s1)) then
            if isPlayedBack
                 (m_jobPools (memory s1) ! unat (m_poolNumber (the_job s1 pCurrentJob)))
            then Inr s1
            else
              (let pParentJob = m_parentJob (the_job s1 pCurrentJob);
                   poolNumber = m_poolNumber (the_job s1 pCurrentJob)
               in case allocateJob fuel pParentJob poolNumber (memory s1) of
                    Inl e \<Rightarrow> Inl e
                  | Inr (pNewJob, M1) \<Rightarrow>
                      Inr (s1\<lparr> memory :=
                             setOnFinished pCurrentJob pNewJob (setFunction pNewJob func M1) \<rparr>))
          else Inl OutOfRange)"

definition onFinishedTerminatePool :: "nat \<Rightarrow> nat \<Rightarrow> JobSystem \<Rightarrow> error + JobSystem" where
  "onFinishedTerminatePool fuel tid s = onFinishedAddJob fuel tid (Body [Terminate]) s"

subsection \<open>Running a body\<close>

definition exec_call :: "nat \<Rightarrow> nat \<Rightarrow> call \<Rightarrow> JobSystem \<Rightarrow> error + JobSystem" where
  "exec_call fuel tid c s =
     (case c of
        AddJob f p \<Rightarrow> addJob fuel tid f p s
      | AddChildJob f \<Rightarrow> addChildJob_current fuel tid f s
      | AddChildJobPool f p \<Rightarrow> addChildJob fuel tid f p s
      | OnFinishedAddJob f \<Rightarrow> onFinishedAddJob fuel tid f s
      | OnFinishedTerminatePool \<Rightarrow> onFinishedTerminatePool fuel tid s
      | PlayBackPool p f \<Rightarrow> playBackPool fuel tid p f s
      | ResetPool p \<Rightarrow>
          (case resetPool p (memory s) of
             Inl e \<Rightarrow> Inl e
           | Inr M \<Rightarrow> Inr (s\<lparr> memory := M \<rparr>))
      | Terminate \<Rightarrow> Inr (terminate s))"

fun exec_calls :: "nat \<Rightarrow> nat \<Rightarrow> call list \<Rightarrow> JobSystem \<Rightarrow> error + JobSystem" where
  "exec_calls fuel tid [] s = Inr s"
| "exec_calls fuel tid (c # cs) s =
     (case exec_call fuel tid c s of
        Inl e \<Rightarrow> Inl e
      | Inr s1 \<Rightarrow> exec_calls fuel tid cs s1)"

definition call_Function :: "nat \<Rightarrow> nat \<Rightarrow> Function \<Rightarrow> JobSystem \<Rightarrow> error + JobSystem" where
  "call_Function fuel tid f s =
     (case f of
        EmptyFunction \<Rightarrow> Inl BadFunctionCall
      | Body cs \<Rightarrow> exec_calls fuel tid cs s)"

subsection \<open>\<^verbatim>\<open>Job::operator()\<close>\<close>

text \<open>
  The loop over the recorded children of a Job in a pool that is played back. It
  follows the sibling links until null; the first argument bounds the number of links.
\<close>

fun play_children :: "nat \<Rightarrow> jptr \<Rightarrow> jptr option \<Rightarrow> JobSystem \<Rightarrow> error + JobSystem" where
  "play_children n this None s = Inr s"
| "play_children 0 this (Some pChild) s = Inl OutOfFuel"
| "play_children (Suc n) this (Some pChild) s =
     (case addJob_ptr (Some pChild)
             (upd_job this
                (\<lambda>J. J\<lparr> m_numUnfinishedChildren := m_numUnfinishedChildren J + 1 \<rparr>) s) of
        Inl e \<Rightarrow> Inl e
      | Inr s1 \<Rightarrow> play_children n this (m_pNextSibling (the_job s1 pChild)) s1)"

text \<open>The block guarded by \<^verbatim>\<open>pPool->isPlayedBack\<close>, for the pool with index \<open>pn\<close>.\<close>

definition play_back_block :: "nat \<Rightarrow> jptr \<Rightarrow> nat \<Rightarrow> JobSystem \<Rightarrow> error + JobSystem" where
  "play_back_block fuel this pn s =
     (case play_children fuel this (m_pFirstChild (the_job s this)) s of
        Inl e \<Rightarrow> Inl e
      | Inr s1 \<Rightarrow>
          let pPool = m_jobPools (memory s1) ! pn;
              numLeft = numJobsLeftToPlay pPool;
              s2 = s1\<lparr> memory := (memory s1)\<lparr> m_jobPools :=
                     (m_jobPools (memory s1))[pn := pPool\<lparr> numJobsLeftToPlay := numLeft - 1 \<rparr>] \<rparr> \<rparr>
          in if numLeft = 1 then
               addJob_ptr (pOnPlaybackFinishedJob (m_jobPools (memory s2) ! pn))
                 (s2\<lparr> memory := (memory s2)\<lparr> m_jobPools :=
                     (m_jobPools (memory s2))
                       [pn := (m_jobPools (memory s2) ! pn)\<lparr> isPlayedBack := False \<rparr>] \<rparr> \<rparr>)
             else Inr s2)"

definition Job_call :: "nat \<Rightarrow> nat \<Rightarrow> jptr \<Rightarrow> JobSystem \<Rightarrow> error + JobSystem" where
  "Job_call fuel tid this s =
     (case m_function (the_job s this) of
        None \<Rightarrow> Inr s
      | Some f \<Rightarrow>
          (case call_Function fuel tid f
                  ((upd_job this (\<lambda>J. J\<lparr> m_numUnfinishedChildren := 1 \<rparr>) s)
                     \<lparr> trace := trace s @ [Invoked this] \<rparr>) of
             Inl e \<Rightarrow> Inl e
           | Inr s1 \<Rightarrow>
               let pn = unat (m_poolNumber (the_job s1 this))
               in if pn < length (m_jobPools (memory s1)) then
                    (case (if isPlayedBack (m_jobPools (memory s1) ! pn)
                           then play_back_block fuel this pn s1 else Inr s1) of
                       Inl e \<Rightarrow> Inl e
                     | Inr s2 \<Rightarrow>
                         let numLeft = m_numUnfinishedChildren (the_job s2 this);
                             s3 = upd_job this
                                    (\<lambda>J. J\<lparr> m_numUnfinishedChildren :=
                                              m_numUnfinishedChildren J - 1 \<rparr>) s2
                         in if numLeft = 1 then onFinished fuel this s3 else Inr s3)
                  else Inl OutOfRange))"

subsection \<open>One round of the worker loop\<close>

text \<open>
  The stealing loop of \<^verbatim>\<open>threadTask\<close>: at most \<open>max\<close> rounds, each picking a random
  queue and stealing from it unless it is the worker's own.
\<close>

fun steal_loop ::
  "nat \<Rightarrow> nat \<Rightarrow> jptr option \<Rightarrow> JobSystem \<Rightarrow> error + (jptr option \<times> JobSystem)" where
  "steal_loop 0 threadIndex pJob s = Inr (pJob, s)"
| "steal_loop (Suc m) threadIndex pJob s =
     (if pJob = None \<and> length (m_threads s) > 1 then
        (let (r, s1) = rand s;
             idx = r mod length (m_threads s1)
         in case (if idx \<noteq> threadIndex then
                    (if idx < length (m_jobQueues s1) then
                       (let (p, q) = steal (m_jobQueues s1 ! idx)
                        in Inr (p, s1\<lparr> m_jobQueues := (m_jobQueues s1)[idx := q] \<rparr>))
                     else Inl OutOfRange)
                  else Inr (pJob, s1)) of
              Inl e \<Rightarrow> Inl e
            | Inr (pJob1, s2) \<Rightarrow>
                if m = 0 then Inr (pJob1, s2) else steal_loop m threadIndex pJob1 s2)
      else Inr (pJob, s))"

text \<open>
  One round of the loop of \<^verbatim>\<open>threadTask\<close> for the worker with index \<open>threadIndex\<close>: with
  the terminate flag set nothing happens; otherwise pop, steal, and run the Job found
  (or sleep, which changes nothing). The source tests the flag three times in a round;
  within one step of this model the flag cannot change between the tests.
\<close>

definition threadTask_round :: "nat \<Rightarrow> nat \<Rightarrow> JobSystem \<Rightarrow> error + JobSystem" where
  "threadTask_round fuel threadIndex s =
     (if m_terminate s then Inr s
      else if threadIndex < length (m_jobQueues s) \<and> threadIndex < length (m_jobPointers s)
              \<and> threadIndex < length (m_threads s) then
        (let (pJob, q) = pop (m_jobQueues s ! threadIndex);
             s1 = s\<lparr> m_jobQueues := (m_jobQueues s)[threadIndex := q] \<rparr>
         in case steal_loop 5 threadIndex pJob s1 of
              Inl e \<Rightarrow> Inl e
            | Inr (None, s2) \<Rightarrow> Inr s2
            | Inr (Some j, s2) \<Rightarrow>
                Job_call fuel (m_threads s2 ! threadIndex) j
                  (s2\<lparr> m_jobPointers := (m_jobPointers s2)[threadIndex := Some j] \<rparr>))
      else Inl OutOfRange)"

text \<open>Several rounds of one worker, stopping at the first failure.\<close>

fun threadTask_rounds :: "nat \<Rightarrow> nat \<Rightarrow> nat \<Rightarrow> JobSystem \<Rightarrow> error + JobSystem" where
  "threadTask_rounds 0 fuel threadIndex s = Inr s"
| "threadTask_rounds (Suc k) fuel threadIndex s =
     (case threadTask_round fuel threadIndex s of
        Inl e \<Rightarrow> Inl e
      | Inr s1 \<Rightarrow> threadTask_rounds k fuel threadIndex s1)"

section \<open>Notions used in the statements\<close>

text \<open>Sequencing of fallible steps, for writing down runs.\<close>

definition then_do :: "error + 'a \<Rightarrow> ('a \<Rightarrow> error + 'b) \<Rightarrow> error + 'b" where
  "then_do m f = (case m of Inl e \<Rightarrow> Inl e | Inr x \<Rightarrow> f x)"

text \<open>\<open>k\<close> successive calls of \<^verbatim>\<open>pop\<close>, with the pointers they return.\<close>

fun pops :: "nat \<Rightarrow> JobQueue \<Rightarrow> jptr option list \<times> JobQueue" where
  "pops 0 q = ([], q)"
| "pops (Suc k) q = (let (j, q1) = pop q; (js, q2) = pops k q1 in (j # js, q2))"

text \<open>
  A pointer is valid when it addresses a slot of an existing segment. The memory is
  well formed when every pool has a segment, every segment has \<open>m_listLength\<close> slots
  and no allocation index lies more than one slot behind the last segment. The
  constructor establishes this and the operations of the interface keep it.
\<close>

definition valid_ptr :: "JobMemory \<Rightarrow> jptr \<Rightarrow> bool" where
  "valid_ptr M p \<longleftrightarrow>
     fst p < length (m_jobPools M)
     \<and> snd p < length (jobLists (m_jobPools M ! fst p)) * m_listLength"

definition wf_pool :: "JobPool \<Rightarrow> bool" where
  "wf_pool P \<longleftrightarrow>
     jobLists P \<noteq> [] \<and> list_all (\<lambda>seg. length seg = m_listLength) (jobLists P)
     \<and> unat (jobIndex P) \<le> length (jobLists P) * m_listLength"

definition wf_mem :: "JobMemory \<Rightarrow> bool" where
  "wf_mem M \<longleftrightarrow> m_jobPools M \<noteq> [] \<and> list_all wf_pool (m_jobPools M)"

text \<open>
  \<open>mem_grows M M'\<close>: \<open>M'\<close> is \<open>M\<close> with pools or segments added; the slots of \<open>M\<close> are
  untouched, the added slots are newly constructed, and the playback state of the
  pools of \<open>M\<close> is the same.
\<close>

definition mem_grows :: "JobMemory \<Rightarrow> JobMemory \<Rightarrow> bool" where
  "mem_grows M M' \<longleftrightarrow>
     m_uninit M' = m_uninit M \<and> length (m_jobPools M) \<le> length (m_jobPools M')
     \<and> (\<forall>r. valid_ptr M r \<longrightarrow> valid_ptr M' r \<and> job_at M' r = job_at M r)
     \<and> (\<forall>r. valid_ptr M' r \<longrightarrow> \<not> valid_ptr M r \<longrightarrow> job_at M' r = Job_new (m_uninit M))
     \<and> (\<forall>k < length (m_jobPools M).
           isPlayedBack (m_jobPools M' ! k) = isPlayedBack (m_jobPools M ! k)
           \<and> numJobsLeftToPlay (m_jobPools M' ! k) = numJobsLeftToPlay (m_jobPools M ! k)
           \<and> pOnPlaybackFinishedJob (m_jobPools M' ! k) = pOnPlaybackFinishedJob (m_jobPools M ! k))"

text \<open>The five assignments of \<^verbatim>\<open>allocateJob\<close> to the slot it has chosen.\<close>

definition wipe :: "u32 \<Rightarrow> Job \<Rightarrow> Job" where
  "wipe pn J = J\<lparr> m_poolNumber := pn, m_onFinishedJob := None, m_pFirstChild := None,
                  m_pLastChild := None, m_pNextSibling := None \<rparr>"

text \<open>
  The invariant of the scheduler state used below: the memory is well formed, every
  parent pointer stored in a slot is valid, and so is every current-job pointer.
\<close>

definition parents_valid :: "JobMemory \<Rightarrow> bool" where
  "parents_valid M \<longleftrightarrow>
     (\<forall>q p. valid_ptr M q \<longrightarrow> m_parentJob (job_at M q) = Some p \<longrightarrow> valid_ptr M p)"

definition sys_inv :: "JobSystem \<Rightarrow> bool" where
  "sys_inv s \<longleftrightarrow>
     wf_mem (memory s) \<and> parents_valid (memory s)
     \<and> list_all (\<lambda>c. case c of None \<Rightarrow> True | Some p \<Rightarrow> valid_ptr (memory s) p)
          (m_jobPointers s)"

text \<open>
  \<open>same_frame s s'\<close>: from \<open>s\<close> to \<open>s'\<close> nothing has changed but counters and available
  flags of slots, the queues' contents, the job count, the random position and the log.
\<close>

definition same_frame :: "JobSystem \<Rightarrow> JobSystem \<Rightarrow> bool" where
  "same_frame s s' \<longleftrightarrow>
     wf_mem (memory s') = wf_mem (memory s)
     \<and> (\<forall>r. valid_ptr (memory s') r = valid_ptr (memory s) r)
     \<and> (\<forall>r. m_parentJob (the_job s' r) = m_parentJob (the_job s r)
            \<and> m_function (the_job s' r) = m_function (the_job s r)
            \<and> m_poolNumber (the_job s' r) = m_poolNumber (the_job s r)
            \<and> m_onFinishedJob (the_job s' r) = m_onFinishedJob (the_job s r)
            \<and> m_pFirstChild (the_job s' r) = m_pFirstChild (the_job s r)
            \<and> m_pLastChild (the_job s' r) = m_pLastChild (the_job s r)
            \<and> m_pNextSibling (the_job s' r) = m_pNextSibling (the_job s r))
     \<and> length (m_jobPools (memory s')) = length (m_jobPools (memory s))
     \<and> (\<forall>k. jobIndex (m_jobPools (memory s') ! k) = jobIndex (m_jobPools (memory s) ! k)
            \<and> isPlayedBack (m_jobPools (memory s') ! k) = isPlayedBack (m_jobPools (memory s) ! k)
            \<and> numJobsLeftToPlay (m_jobPools (memory s') ! k)
                = numJobsLeftToPlay (m_jobPools (memory s) ! k)
            \<and> pOnPlaybackFinishedJob (m_jobPools (memory s') ! k)
                = pOnPlaybackFinishedJob (m_jobPools (memory s) ! k))
     \<and> m_jobPointers s' = m_jobPointers s \<and> m_threads s' = m_threads s
     \<and> m_threadIndexMap s' = m_threadIndexMap s \<and> m_terminate s' = m_terminate s
     \<and> length (m_jobQueues s') = length (m_jobQueues s)"

text \<open>
  The queues are in order when there is a worker and every worker has its queue.
  \<open>last_ones s\<close> are the valid slots whose counter of unfinished children reads 1: the
  Jobs that the next \<^verbatim>\<open>childFinished\<close> completes.
\<close>

definition queues_ok :: "JobSystem \<Rightarrow> bool" where
  "queues_ok s \<longleftrightarrow> m_threads s \<noteq> [] \<and> length (m_jobQueues s) = length (m_threads s)"

definition last_ones :: "JobSystem \<Rightarrow> jptr set" where
  "last_ones s = {q. valid_ptr (memory s) q \<and> m_numUnfinishedChildren (the_job s q) = 1}"

text \<open>
  \<open>api_step s s'\<close>: the log is the same in \<open>s'\<close> as in \<open>s\<close>, and if \<open>s\<close> satisfies the
  invariant then so does \<open>s'\<close>, with every valid pointer of \<open>s\<close> still valid.
\<close>

definition api_step :: "JobSystem \<Rightarrow> JobSystem \<Rightarrow> bool" where
  "api_step s s' \<longleftrightarrow>
     trace s' = trace s
     \<and> (sys_inv s \<longrightarrow> sys_inv s' \<and> (\<forall>r. valid_ptr (memory s) r \<longrightarrow> valid_ptr (memory s') r))"

text \<open>
  The call of a Job with function \<open>f\<close> up to, but without, the final decrement of its
  counter: the counter is set to 1, the body runs, and in a played-back pool the recorded
  children are enqueued and the Jobs left to play are counted down.
\<close>

definition Job_body :: "nat \<Rightarrow> nat \<Rightarrow> jptr \<Rightarrow> Function \<Rightarrow> JobSystem \<Rightarrow> error + JobSystem" where
  "Job_body fuel tid this f s =
     (case call_Function fuel tid f
             ((upd_job this (\<lambda>J. J\<lparr> m_numUnfinishedChildren := 1 \<rparr>) s)
                \<lparr> trace := trace s @ [Invoked this] \<rparr>) of
        Inl e \<Rightarrow> Inl e
      | Inr s1 \<Rightarrow>
          let pn = unat (m_poolNumber (the_job s1 this))
          in if pn < length (m_jobPools (memory s1)) then
               (if isPlayedBack (m_jobPools (memory s1) ! pn)
                then play_back_block fuel this pn s1 else Inr s1)
             else Inl OutOfRange)"

subsection \<open>Example states\<close>

text \<open>
  New slots that happen to read as available, one worker (thread 7), two pools: the
  state that \<^verbatim>\<open>JobSystem(1, 2)\<close> constructs.
\<close>

definition u_avail :: uninit where
  "u_avail = \<lparr> u_available = True, u_pLastChild = None, u_numJobsLeftToPlay = 0 \<rparr>"

definition sys0 :: JobSystem where
  "sys0 =
     \<lparr> m_threads = [7], m_jobPointers = [None], m_threadIndexMap = [7 \<mapsto> 0],
       m_terminate = False, m_jobQueues = [JobQueue_new], m_numJobs = 0,
       memory = \<lparr> m_jobPools = [JobPool_new u_avail, JobPool_new u_avail],
                  m_uninit = u_avail \<rparr>,
       rand_seq = (\<lambda>_. 0), rand_pos = 0, trace = [] \<rparr>"

text \<open>The same with pool 1 marked as played back.\<close>

definition sys_playing :: JobSystem where
  "sys_playing =
     sys0\<lparr> memory :=
            \<lparr> m_jobPools = [JobPool_new u_avail, (JobPool_new u_avail)\<lparr> isPlayedBack := True \<rparr>],
              m_uninit = u_avail \<rparr> \<rparr>"

text \<open>Slot 0 of pool 0, which has no function, sits in the worker's queue and is counted.\<close>

definition sys_null_queued :: JobSystem where
  "sys_null_queued = sys0\<lparr> m_jobQueues := [\<lparr> m_queue = [Some (0, 0)] \<rparr>], m_numJobs := 1 \<rparr>"

text \<open>
  The main thread (thread 0) submits a Job whose body adds one child; the worker runs
  it. Then the worker takes the child from its queue and starts it: this is the state
  in which the child's body runs.
\<close>

definition run_parent_child :: "error + JobSystem" where
  "run_parent_child =
     then_do (addJob 1 0 (Body [AddChildJob (Body [])]) 0 sys0) (threadTask_round 1 0)"

definition sys_child_running :: JobSystem where
  "sys_child_running =
     (let s = projr run_parent_child
      in (upd_job (0, 1) (\<lambda>J. J\<lparr> m_numUnfinishedChildren := 1 \<rparr>)
            (s\<lparr> m_jobQueues := [\<lparr> m_queue = [] \<rparr>], m_jobPointers := [Some (0, 1)] \<rparr>))
           \<lparr> trace := trace s @ [Invoked (0, 1)] \<rparr>)"

text \<open>
  The runs below use one worker (thread 7, index 0) and the main thread (thread 0). The
  worker's rounds follow chains of parents and lists of children of up to two links.
\<close>

text \<open>
  Recording and playback. The main thread submits to pool 1 a Job whose body adds one
  child, and the worker runs both. Then a Job of pool 0 whose body plays pool 1 back is
  submitted and the worker runs it: this is the state in which playback has begun. Three
  more rounds of the worker end the playback.
\<close>

definition run_playback_begun :: "error + JobSystem" where
  "run_playback_begun =
     then_do (addJob (Suc (Suc 0)) 0 (Body [AddChildJob (Body [])]) 1 sys0) (\<lambda>s.
     then_do (threadTask_rounds (Suc (Suc 0)) (Suc (Suc 0)) 0 s) (\<lambda>s.
     then_do (addJob (Suc (Suc 0)) 0 (Body [PlayBackPool 1 (Body [])]) 0 s) (\<lambda>s.
     threadTask_round (Suc (Suc 0)) 0 s)))"

definition sys_playback_begun :: JobSystem where
  "sys_playback_begun = projr run_playback_begun"

definition run_playback_done :: "error + JobSystem" where
  "run_playback_done =
     then_do run_playback_begun (threadTask_rounds (Suc (Suc (Suc 0))) (Suc (Suc 0)) 0)"

text \<open>
  The same with a second Job without parent submitted to pool 1 before the worker
  starts, so that three Jobs are recorded: slot 0 with its child in slot 2, and slot 1.
  After the playback has started the worker runs until its queue is empty (the last of
  its rounds finds nothing).
\<close>

definition run_playback_second_root :: "error + JobSystem" where
  "run_playback_second_root =
     then_do (addJob (Suc (Suc 0)) 0 (Body [AddChildJob (Body [])]) 1 sys0) (\<lambda>s.
     then_do (addJob (Suc (Suc 0)) 0 (Body []) 1 s) (\<lambda>s.
     then_do (threadTask_rounds (Suc (Suc (Suc 0))) (Suc (Suc 0)) 0 s) (\<lambda>s.
     then_do (addJob (Suc (Suc 0)) 0 (Body [PlayBackPool 1 (Body [])]) 0 s) (\<lambda>s.
     threadTask_rounds (Suc (Suc (Suc (Suc 0)))) (Suc (Suc 0)) 0 s))))"

text \<open>
  Two frames in pool 0. In the first frame a Job with one child is submitted and both
  run to completion; then the pool is reset. In the second frame the main thread submits
  a Job whose body adds a child that registers a successor, and a second Job with an
  empty body; the worker runs the four Jobs of the frame.
\<close>

definition run_frame_one_child :: "error + JobSystem" where
  "run_frame_one_child =
     then_do (addJob (Suc (Suc 0)) 0 (Body [AddChildJob (Body [])]) 0 sys0) (\<lambda>s.
     then_do (threadTask_rounds (Suc (Suc 0)) (Suc (Suc 0)) 0 s) (\<lambda>s.
     exec_call (Suc (Suc 0)) 0 (ResetPool 0) s))"

definition run_second_frame :: "error + JobSystem" where
  "run_second_frame =
     then_do run_frame_one_child (\<lambda>s.
     then_do (addJob (Suc (Suc 0)) 0
                (Body [AddChildJob (Body [OnFinishedAddJob (Body [])])]) 0 s) (\<lambda>s.
     then_do (addJob (Suc (Suc 0)) 0 (Body []) 0 s) (\<lambda>s.
     threadTask_rounds (Suc (Suc (Suc (Suc 0)))) (Suc (Suc 0)) 0 s)))"

text \<open>
  After the same first frame and reset, a Job without parent whose body registers a
  successor is submitted, and the worker runs it and then the successor.
\<close>

definition run_successor_of_root :: "error + JobSystem" where
  "run_successor_of_root =
     then_do run_frame_one_child (\<lambda>s.
     then_do (addJob (Suc (Suc 0)) 0 (Body [OnFinishedAddJob (Body [])]) 0 s) (\<lambda>s.
     threadTask_rounds (Suc (Suc 0)) (Suc (Suc 0)) 0 s))"

text \<open>
  A first frame in which a Job with two children runs to completion, and a reset. In
  the second frame a Job is submitted whose body adds a child that registers a
  successor; the worker runs that Job; the main thread submits another Job with an empty
  body; the worker runs the child, the other Job and the successor.
\<close>

definition run_frame_two_children :: "error + JobSystem" where
  "run_frame_two_children =
     then_do (addJob (Suc (Suc 0)) 0
                (Body [AddChildJob (Body []), AddChildJob (Body [])]) 0 sys0) (\<lambda>s.
     then_do (threadTask_rounds (Suc (Suc (Suc 0))) (Suc (Suc 0)) 0 s) (\<lambda>s.
     exec_call (Suc (Suc 0)) 0 (ResetPool 0) s))"

definition run_successor_pending :: "error + JobSystem" where
  "run_successor_pending =
     then_do run_frame_two_children (\<lambda>s.
     then_do (addJob (Suc (Suc 0)) 0
                (Body [AddChildJob (Body [OnFinishedAddJob (Body [])])]) 0 s) (\<lambda>s.
     then_do (threadTask_round (Suc (Suc 0)) 0 s) (\<lambda>s.
     then_do (addJob (Suc (Suc 0)) 0 (Body []) 0 s) (\<lambda>s.
     threadTask_rounds (Suc (Suc (Suc 0))) (Suc (Suc 0)) 0 s))))"

section \<open>Facts about the store\<close>

lemma m_listLength_pos: "0 < m_listLength"
  by (simp add: m_listLength_def)

lemma div_mod_eq_iff: "(i::nat) div n = k div n \<Longrightarrow> i mod n = k mod n \<Longrightarrow> i = k"
  by (metis div_mult_mod_eq)

lemma pool_job_upd_other: "k \<noteq> i \<Longrightarrow> pool_job (pool_job_upd i f P) k = pool_job P k"
proof -
  assume ne: "k \<noteq> i"
  show ?thesis
  proof (cases "k div m_listLength = i div m_listLength")
    case False
    then show ?thesis by (simp add: pool_job_def pool_job_upd_def)
  next
    case True
    with ne have m: "k mod m_listLength \<noteq> i mod m_listLength"
      using div_mod_eq_iff by blast
    show ?thesis
    proof (cases "i div m_listLength < length (jobLists P)")
      case True
      with \<open>k div m_listLength = i div m_listLength\<close> m show ?thesis
        by (simp add: pool_job_def pool_job_upd_def)
    next
      case False
      then show ?thesis by (simp add: pool_job_def pool_job_upd_def not_less list_update_beyond)
    qed
  qed
qed

lemma pool_job_upd_same:
  assumes "i < length (jobLists P) * m_listLength"
    and "list_all (\<lambda>seg. length seg = m_listLength) (jobLists P)"
  shows "pool_job (pool_job_upd i f P) i = f (pool_job P i)"
proof -
  have d: "i div m_listLength < length (jobLists P)"
    using assms(1) by (simp add: less_mult_imp_div_less)
  with assms(2) have "length (jobLists P ! (i div m_listLength)) = m_listLength"
    by (simp add: list_all_length)
  with d m_listLength_pos show ?thesis
    by (simp add: pool_job_def pool_job_upd_def)
qed

lemma jobLists_pool_job_upd_length [simp]:
  "length (jobLists (pool_job_upd i f P)) = length (jobLists P)"
  by (simp add: pool_job_upd_def)

lemma pool_job_upd_fields [simp]:
  "jobIndex (pool_job_upd i f P) = jobIndex P"
  "numJobsLeftToPlay (pool_job_upd i f P) = numJobsLeftToPlay P"
  "isPlayedBack (pool_job_upd i f P) = isPlayedBack P"
  "pOnPlaybackFinishedJob (pool_job_upd i f P) = pOnPlaybackFinishedJob P"
  by (simp_all add: pool_job_upd_def)

lemma pool_job_upd_segs:
  "list_all (\<lambda>seg. length seg = m_listLength) (jobLists (pool_job_upd i f P))
     = list_all (\<lambda>seg. length seg = m_listLength) (jobLists P)"
proof (cases "i div m_listLength < length (jobLists P)")
  case True
  then show ?thesis
    by (auto simp add: pool_job_upd_def list_all_length nth_list_update)
next
  case False
  then show ?thesis by (simp add: pool_job_upd_def not_less list_update_beyond)
qed

lemma wf_pool_job_upd [simp]: "wf_pool (pool_job_upd i f P) = wf_pool P"
  by (simp add: wf_pool_def pool_job_upd_segs) (simp add: pool_job_upd_def)

lemma job_upd_pools_length [simp]: "length (m_jobPools (job_upd p f M)) = length (m_jobPools M)"
  by (simp add: job_upd_def)

lemma job_upd_uninit [simp]: "m_uninit (job_upd p f M) = m_uninit M"
  by (simp add: job_upd_def)

lemma job_upd_pool_fields [simp]:
  "jobIndex (m_jobPools (job_upd p f M) ! k) = jobIndex (m_jobPools M ! k)"
  "numJobsLeftToPlay (m_jobPools (job_upd p f M) ! k) = numJobsLeftToPlay (m_jobPools M ! k)"
  "isPlayedBack (m_jobPools (job_upd p f M) ! k) = isPlayedBack (m_jobPools M ! k)"
  "pOnPlaybackFinishedJob (m_jobPools (job_upd p f M) ! k) = pOnPlaybackFinishedJob (m_jobPools M ! k)"
  "length (jobLists (m_jobPools (job_upd p f M) ! k)) = length (jobLists (m_jobPools M ! k))"
  by (cases "fst p < length (m_jobPools M)"; cases "k = fst p"; simp add: job_upd_def not_less list_update_beyond)+

lemma valid_ptr_job_upd [simp]: "valid_ptr (job_upd p f M) q = valid_ptr M q"
  by (simp add: valid_ptr_def)

lemma wf_mem_job_upd [simp]: "wf_mem (job_upd p f M) = wf_mem M"
proof (cases "fst p < length (m_jobPools M)")
  case True
  then show ?thesis
    by (auto simp add: wf_mem_def job_upd_def list_all_length nth_list_update)
next
  case False
  then show ?thesis by (simp add: wf_mem_def job_upd_def not_less list_update_beyond)
qed

lemma job_at_job_upd_other: "q \<noteq> p \<Longrightarrow> job_at (job_upd p f M) q = job_at M q"
proof -
  assume ne: "q \<noteq> p"
  show ?thesis
  proof (cases "fst q = fst p")
    case False
    then show ?thesis by (simp add: job_at_def job_upd_def)
  next
    case True
    with ne have s: "snd q \<noteq> snd p" by (simp add: prod_eq_iff)
    show ?thesis
    proof (cases "fst p < length (m_jobPools M)")
      case True
      with \<open>fst q = fst p\<close> s show ?thesis
        by (simp add: job_at_def job_upd_def pool_job_upd_other)
    next
      case False
      then show ?thesis by (simp add: job_at_def job_upd_def not_less list_update_beyond)
    qed
  qed
qed

lemma job_at_job_upd_same:
  assumes "wf_mem M" and "valid_ptr M p"
  shows "job_at (job_upd p f M) p = f (job_at M p)"
proof -
  from assms have a: "fst p < length (m_jobPools M)"
    and b: "snd p < length (jobLists (m_jobPools M ! fst p)) * m_listLength"
    by (simp_all add: valid_ptr_def)
  from assms(1) a have "wf_pool (m_jobPools M ! fst p)"
    by (simp add: wf_mem_def list_all_length)
  then have "list_all (\<lambda>seg. length seg = m_listLength) (jobLists (m_jobPools M ! fst p))"
    by (simp add: wf_pool_def)
  with a b show ?thesis
    by (simp add: job_at_def job_upd_def pool_job_upd_same)
qed

lemma job_at_job_upd:
  "wf_mem M \<Longrightarrow> valid_ptr M p \<Longrightarrow>
   job_at (job_upd p f M) q = (if q = p then f (job_at M p) else job_at M q)"
  by (simp add: job_at_job_upd_same job_at_job_upd_other)

lemma job_upd_beyond:
  "\<not> (fst p < length (m_jobPools M) \<and> snd p div m_listLength < length (jobLists (m_jobPools M ! fst p))
      \<and> snd p mod m_listLength < length (jobLists (m_jobPools M ! fst p) ! (snd p div m_listLength)))
   \<Longrightarrow> job_upd p f M = M"
proof -
  assume a: "\<not> (fst p < length (m_jobPools M) \<and> snd p div m_listLength < length (jobLists (m_jobPools M ! fst p))
      \<and> snd p mod m_listLength < length (jobLists (m_jobPools M ! fst p) ! (snd p div m_listLength)))"
  show ?thesis
  proof (cases "fst p < length (m_jobPools M)")
    case False
    then show ?thesis by (simp add: job_upd_def not_less list_update_beyond)
  next
    case True
    have "pool_job_upd (snd p) f (m_jobPools M ! fst p) = m_jobPools M ! fst p"
    proof (cases "snd p div m_listLength < length (jobLists (m_jobPools M ! fst p))")
      case False
      then show ?thesis by (simp add: pool_job_upd_def not_less list_update_beyond)
    next
      case t: True
      with a True have "\<not> snd p mod m_listLength < length (jobLists (m_jobPools M ! fst p) ! (snd p div m_listLength))"
        by simp
      then show ?thesis by (simp add: pool_job_upd_def not_less list_update_beyond)
    qed
    then show ?thesis by (simp add: job_upd_def)
  qed
qed

lemma job_at_job_upd_field:
  assumes "\<And>J. g (f J) = g J"
  shows "g (job_at (job_upd p f M) q) = g (job_at M q)"
proof (cases "q = p")
  case False
  then show ?thesis by (simp add: job_at_job_upd_other)
next
  case True
  show ?thesis
  proof (cases "fst p < length (m_jobPools M) \<and> snd p div m_listLength < length (jobLists (m_jobPools M ! fst p))
      \<and> snd p mod m_listLength < length (jobLists (m_jobPools M ! fst p) ! (snd p div m_listLength))")
    case True
    then show ?thesis using \<open>q = p\<close> assms
      by (simp add: job_at_def job_upd_def pool_job_def pool_job_upd_def)
  next
    case False
    then have "job_upd p f M = M" by (rule job_upd_beyond)
    then show ?thesis by simp
  qed
qed

section \<open>Allocation only adds slots\<close>

lemma mem_grows_refl: "mem_grows M M"
  by (simp add: mem_grows_def)

lemma mem_grows_old: "mem_grows M M' \<Longrightarrow> valid_ptr M r \<Longrightarrow> valid_ptr M' r \<and> job_at M' r = job_at M r"
  unfolding mem_grows_def by blast

lemma mem_grows_new:
  "mem_grows M M' \<Longrightarrow> valid_ptr M' r \<Longrightarrow> \<not> valid_ptr M r \<Longrightarrow> job_at M' r = Job_new (m_uninit M)"
  unfolding mem_grows_def by blast

lemma mem_grows_length: "mem_grows M M' \<Longrightarrow> length (m_jobPools M) \<le> length (m_jobPools M')"
  by (simp add: mem_grows_def)

lemma mem_grows_uninit: "mem_grows M M' \<Longrightarrow> m_uninit M' = m_uninit M"
  by (simp add: mem_grows_def)

lemma mem_grows_playback:
  "mem_grows M M' \<Longrightarrow> k < length (m_jobPools M) \<Longrightarrow>
     isPlayedBack (m_jobPools M' ! k) = isPlayedBack (m_jobPools M ! k)
     \<and> numJobsLeftToPlay (m_jobPools M' ! k) = numJobsLeftToPlay (m_jobPools M ! k)
     \<and> pOnPlaybackFinishedJob (m_jobPools M' ! k) = pOnPlaybackFinishedJob (m_jobPools M ! k)"
  by (simp add: mem_grows_def)

lemma mem_growsI:
  assumes "m_uninit M' = m_uninit M" and "length (m_jobPools M) \<le> length (m_jobPools M')"
    and "\<And>r. valid_ptr M r \<Longrightarrow> valid_ptr M' r \<and> job_at M' r = job_at M r"
    and "\<And>r. valid_ptr M' r \<Longrightarrow> \<not> valid_ptr M r \<Longrightarrow> job_at M' r = Job_new (m_uninit M)"
    and "\<And>k. k < length (m_jobPools M) \<Longrightarrow>
           isPlayedBack (m_jobPools M' ! k) = isPlayedBack (m_jobPools M ! k)
           \<and> numJobsLeftToPlay (m_jobPools M' ! k) = numJobsLeftToPlay (m_jobPools M ! k)
           \<and> pOnPlaybackFinishedJob (m_jobPools M' ! k) = pOnPlaybackFinishedJob (m_jobPools M ! k)"
  shows "mem_grows M M'"
  unfolding mem_grows_def using assms by blast

lemma mem_grows_trans:
  assumes a: "mem_grows M M1" and b: "mem_grows M1 M2"
  shows "mem_grows M M2"
proof -
  have u: "m_uninit M2 = m_uninit M"
    using mem_grows_uninit[OF a] mem_grows_uninit[OF b] by simp
  have l: "length (m_jobPools M) \<le> length (m_jobPools M2)"
    using mem_grows_length[OF a] mem_grows_length[OF b] by simp
  have old: "valid_ptr M2 r \<and> job_at M2 r = job_at M r" if "valid_ptr M r" for r
    using mem_grows_old[OF a that] mem_grows_old[OF b, of r] by simp
  have new: "job_at M2 r = Job_new (m_uninit M)" if v: "valid_ptr M2 r" and nv: "\<not> valid_ptr M r" for r
  proof (cases "valid_ptr M1 r")
    case True
    with mem_grows_old[OF b True] mem_grows_new[OF a True nv] show ?thesis by simp
  next
    case False
    with mem_grows_new[OF b v False] mem_grows_uninit[OF a] show ?thesis by simp
  qed
  have pb: "isPlayedBack (m_jobPools M2 ! k) = isPlayedBack (m_jobPools M ! k)
     \<and> numJobsLeftToPlay (m_jobPools M2 ! k) = numJobsLeftToPlay (m_jobPools M ! k)
     \<and> pOnPlaybackFinishedJob (m_jobPools M2 ! k) = pOnPlaybackFinishedJob (m_jobPools M ! k)"
    if k: "k < length (m_jobPools M)" for k
  proof -
    from k mem_grows_length[OF a] have "k < length (m_jobPools M1)" by simp
    from mem_grows_playback[OF b this] mem_grows_playback[OF a k] show ?thesis by simp
  qed
  show ?thesis using u l old new pb by (rule mem_growsI)
qed

lemma wf_pool_new: "wf_pool (JobPool_new u)"
  by (simp add: wf_pool_def JobPool_new_def JobList_new_def)

lemma JobPool_new_reset: "(JobPool_new u)\<lparr> jobIndex := 0 \<rparr> = JobPool_new u"
  by (simp add: JobPool_new_def)

lemma pool_job_new: "i < m_listLength \<Longrightarrow> pool_job (JobPool_new u) i = Job_new u"
  by (simp add: pool_job_def JobPool_new_def JobList_new_def)

text \<open>resetPool on a pool that is not there yet.\<close>

lemma resetPool_missing:
  assumes "wf_mem M" and "unat pn > length (m_jobPools M) - 1" and "resetPool pn M = Inr M1"
  shows "M1 = M\<lparr> m_jobPools := m_jobPools M @
                  replicate (unat pn + 1 - length (m_jobPools M)) (JobPool_new (m_uninit M)) \<rparr>"
proof -
  let ?k = "unat pn + 1 - length (m_jobPools M)"
  let ?ps = "m_jobPools M @ replicate ?k (JobPool_new (m_uninit M))"
  from assms(1) have ne: "m_jobPools M \<noteq> []" by (simp add: wf_mem_def)
  with assms(2) have ge: "length (m_jobPools M) \<le> unat pn" by (cases "m_jobPools M") auto
  then have nth: "?ps ! unat pn = JobPool_new (m_uninit M)"
    by (simp add: nth_append)
  have len: "unat pn < length ?ps" using ge by simp
  have "?ps[unat pn := (?ps ! unat pn)\<lparr> jobIndex := 0 \<rparr>] = ?ps"
    by (simp only: nth JobPool_new_reset) (metis nth list_update_id)
  with assms(2,3) show ?thesis
    by (simp add: resetPool_def Let_def split: if_splits)
qed

lemma mem_grows_append_pools:
  assumes "wf_mem M"
  shows "mem_grows M (M\<lparr> m_jobPools := m_jobPools M @ replicate k (JobPool_new (m_uninit M)) \<rparr>)"
    and "wf_mem (M\<lparr> m_jobPools := m_jobPools M @ replicate k (JobPool_new (m_uninit M)) \<rparr>)"
proof -
  let ?M' = "M\<lparr> m_jobPools := m_jobPools M @ replicate k (JobPool_new (m_uninit M)) \<rparr>"
  have new: "job_at ?M' r = Job_new (m_uninit M)" if v: "valid_ptr ?M' r" and nv: "\<not> valid_ptr M r" for r
  proof -
    have "\<not> fst r < length (m_jobPools M)"
    proof
      assume "fst r < length (m_jobPools M)"
      with v have "valid_ptr M r" by (simp add: valid_ptr_def nth_append)
      with nv show False by simp
    qed
    with v have p: "m_jobPools ?M' ! fst r = JobPool_new (m_uninit M)"
      by (auto simp add: valid_ptr_def nth_append)
    with v have "snd r < m_listLength" by (simp add: valid_ptr_def JobPool_new_def)
    with p show ?thesis by (simp add: job_at_def pool_job_new)
  qed
  show "mem_grows M ?M'"
  proof (rule mem_growsI)
    show "m_uninit ?M' = m_uninit M" by simp
    show "length (m_jobPools M) \<le> length (m_jobPools ?M')" by simp
    show "valid_ptr ?M' r \<and> job_at ?M' r = job_at M r" if "valid_ptr M r" for r
      using that by (simp add: valid_ptr_def nth_append job_at_def)
    show "job_at ?M' r = Job_new (m_uninit M)" if "valid_ptr ?M' r" "\<not> valid_ptr M r" for r
      using that by (rule new)
    show "isPlayedBack (m_jobPools ?M' ! k) = isPlayedBack (m_jobPools M ! k)
           \<and> numJobsLeftToPlay (m_jobPools ?M' ! k) = numJobsLeftToPlay (m_jobPools M ! k)
           \<and> pOnPlaybackFinishedJob (m_jobPools ?M' ! k) = pOnPlaybackFinishedJob (m_jobPools M ! k)"
      if "k < length (m_jobPools M)" for k
      using that by (simp add: nth_append)
  qed
  show "wf_mem ?M'" using assms
    by (simp add: wf_mem_def wf_pool_new list_all_length nth_append)
qed

lemma unat_succ_le: "unat (x + 1 :: u32) \<le> unat x + 1"
proof -
  have "unat (x + 1) = (unat x + unat (1 :: u32)) mod 2 ^ LENGTH(32)"
    by (rule unat_word_ariths(1))
  also have "\<dots> \<le> unat x + unat (1 :: u32)" by (rule mod_less_eq_dividend)
  finally show ?thesis by simp
qed

text \<open>The index step of getNextJob in a pool that exists.\<close>

lemma index_step:
  assumes wf: "wf_mem M" and pn: "n < length (m_jobPools M)"
    and P: "P = m_jobPools M ! n"
    and P2: "P2 = (if unat (jobIndex P) > length (jobLists P) * m_listLength - 1
                then P\<lparr> jobIndex := jobIndex P + 1, jobLists := jobLists P @ [JobList_new (m_uninit M)] \<rparr>
                else P\<lparr> jobIndex := jobIndex P + 1 \<rparr>)"
    and M': "M' = M\<lparr> m_jobPools := (m_jobPools M)[n := P2] \<rparr>"
  shows "wf_mem M'" and "mem_grows M M'" and "valid_ptr M' (n, unat (jobIndex P))"
    and "length (m_jobPools M') = length (m_jobPools M)"
proof -
  from wf pn P have wfP: "wf_pool P" by (simp add: wf_mem_def list_all_length)
  then have segs: "list_all (\<lambda>seg. length seg = m_listLength) (jobLists P)"
    and ne: "jobLists P \<noteq> []" and idx: "unat (jobIndex P) \<le> length (jobLists P) * m_listLength"
    by (simp_all add: wf_pool_def)
  have lpos: "0 < length (jobLists P) * m_listLength" using ne m_listLength_pos by simp
  have wfP2: "wf_pool P2"
  proof (cases "unat (jobIndex P) > length (jobLists P) * m_listLength - 1")
    case True
    have "unat (jobIndex P + 1) \<le> unat (jobIndex P) + 1" by (rule unat_succ_le)
    with idx have "unat (jobIndex P + 1) \<le> (length (jobLists P) + 1) * m_listLength"
      using m_listLength_pos by (simp add: m_listLength_def)
    with True segs show ?thesis
      by (simp add: P2 wf_pool_def JobList_new_def)
  next
    case False
    then have "unat (jobIndex P) < length (jobLists P) * m_listLength" using lpos by arith
    moreover have "unat (jobIndex P + 1) \<le> unat (jobIndex P) + 1" by (rule unat_succ_le)
    ultimately have "unat (jobIndex P + 1) \<le> length (jobLists P) * m_listLength" by simp
    with False segs ne show ?thesis by (simp add: P2 wf_pool_def)
  qed
  show "wf_mem M'" using wf wfP2 pn
    by (auto simp add: M' wf_mem_def list_all_length nth_list_update)
  show len: "length (m_jobPools M') = length (m_jobPools M)" by (simp add: M')
  have segs2: "length (jobLists P) \<le> length (jobLists P2)" by (simp add: P2)
  have nth2: "jobLists P2 ! k = jobLists P ! k" if "k < length (jobLists P)" for k
    using that by (simp add: P2 nth_append)
  have fields: "isPlayedBack P2 = isPlayedBack P" "numJobsLeftToPlay P2 = numJobsLeftToPlay P"
    "pOnPlaybackFinishedJob P2 = pOnPlaybackFinishedJob P"
    by (simp_all add: P2)
  have pools: "m_jobPools M' ! k = (if k = n then P2 else m_jobPools M ! k)" for k
    using pn by (simp add: M' nth_list_update)
  have old: "valid_ptr M' r \<and> job_at M' r = job_at M r" if v: "valid_ptr M r" for r
  proof (cases "fst r = n")
    case False
    with v show ?thesis by (simp add: valid_ptr_def job_at_def pools len)
  next
    case True
    with v P have b: "snd r < length (jobLists P) * m_listLength" by (simp add: valid_ptr_def)
    then have d: "snd r div m_listLength < length (jobLists P)"
      by (simp add: less_mult_imp_div_less)
    have "snd r < length (jobLists P2) * m_listLength"
      using b segs2 by (meson less_le_trans mult_le_mono1)
    with True v d show ?thesis
      by (simp add: valid_ptr_def job_at_def pools len pool_job_def nth2 P[symmetric])
  qed
  have new: "job_at M' r = Job_new (m_uninit M)" if v: "valid_ptr M' r" and nv: "\<not> valid_ptr M r" for r
  proof -
    from v have fr: "fst r < length (m_jobPools M)" by (simp add: valid_ptr_def len)
    have eqn: "fst r = n"
    proof (rule ccontr)
      assume "fst r \<noteq> n"
      with v have "valid_ptr M r" by (simp add: valid_ptr_def pools len)
      with nv show False by simp
    qed
    from nv fr eqn P have lo: "length (jobLists P) * m_listLength \<le> snd r"
      by (simp add: valid_ptr_def not_less)
    from v eqn have hi: "snd r < length (jobLists P2) * m_listLength"
      by (simp add: valid_ptr_def pools)
    have grown: "jobLists P2 = jobLists P @ [JobList_new (m_uninit M)]"
    proof (rule ccontr)
      assume "jobLists P2 \<noteq> jobLists P @ [JobList_new (m_uninit M)]"
      then have "jobLists P2 = jobLists P" by (simp add: P2 split: if_splits)
      with lo hi show False by simp
    qed
    from lo have d1: "length (jobLists P) \<le> snd r div m_listLength"
      using m_listLength_pos by (simp add: less_eq_div_iff_mult_less_eq)
    from hi grown have "snd r div m_listLength < length (jobLists P) + 1"
      by (simp add: less_mult_imp_div_less)
    with d1 have d: "snd r div m_listLength = length (jobLists P)" by simp
    have "snd r mod m_listLength < m_listLength" using m_listLength_pos by simp
    then show ?thesis
      by (simp add: job_at_def eqn pools pool_job_def grown d JobList_new_def)
  qed
  have pb: "isPlayedBack (m_jobPools M' ! k) = isPlayedBack (m_jobPools M ! k)
     \<and> numJobsLeftToPlay (m_jobPools M' ! k) = numJobsLeftToPlay (m_jobPools M ! k)
     \<and> pOnPlaybackFinishedJob (m_jobPools M' ! k) = pOnPlaybackFinishedJob (m_jobPools M ! k)" for k
    using fields by (simp add: pools P)
  have u: "m_uninit M' = m_uninit M" by (simp add: M')
  have le: "length (m_jobPools M) \<le> length (m_jobPools M')" by (simp add: len)
  show "mem_grows M M'"
    using u le old new pb by (rule mem_growsI)
  show "valid_ptr M' (n, unat (jobIndex P))"
  proof (cases "unat (jobIndex P) > length (jobLists P) * m_listLength - 1")
    case True
    with idx have "unat (jobIndex P) < (length (jobLists P) + 1) * m_listLength"
      using m_listLength_pos by simp
    with True pn show ?thesis by (simp add: valid_ptr_def len pools P2)
  next
    case False
    then have "unat (jobIndex P) < length (jobLists P) * m_listLength" using lpos by arith
    with False pn show ?thesis by (simp add: valid_ptr_def len pools P2)
  qed
qed

lemma getNextJob_props:
  assumes wf: "wf_mem M" and g: "getNextJob pn M = Inr (q, M')"
  shows "wf_mem M'" and "mem_grows M M'" and "valid_ptr M' q" and "q = (unat pn, unat (jobIndex (m_jobPools M' ! unat pn) - 1))"
proof -
  obtain M1 where r: "(if unat pn > length (m_jobPools M) - 1 then resetPool pn M else Inr M) = Inr M1"
    using g by (auto simp add: getNextJob_def split: sum.splits)
  have M1: "wf_mem M1 \<and> mem_grows M M1 \<and> unat pn < length (m_jobPools M1)"
  proof (cases "unat pn > length (m_jobPools M) - 1")
    case True
    with r have "resetPool pn M = Inr M1" by simp
    from resetPool_missing[OF wf True this]
    have e: "M1 = M\<lparr> m_jobPools := m_jobPools M @
                  replicate (unat pn + 1 - length (m_jobPools M)) (JobPool_new (m_uninit M)) \<rparr>" .
    have "unat pn < length (m_jobPools M1)" by (simp add: e)
    with mem_grows_append_pools[OF wf] e show ?thesis by simp
  next
    case False
    with r have "M1 = M" by simp
    moreover from wf have "m_jobPools M \<noteq> []" by (simp add: wf_mem_def)
    ultimately show ?thesis using False wf mem_grows_refl by (cases "m_jobPools M") auto
  qed
  define P where "P = m_jobPools M1 ! unat pn"
  define P2 where "P2 = (if unat (jobIndex P) > length (jobLists P) * m_listLength - 1
                then P\<lparr> jobIndex := jobIndex P + 1, jobLists := jobLists P @ [JobList_new (m_uninit M1)] \<rparr>
                else P\<lparr> jobIndex := jobIndex P + 1 \<rparr>)"
  define M2 where "M2 = M1\<lparr> m_jobPools := (m_jobPools M1)[unat pn := P2] \<rparr>"
  from g r have res: "q = (unat pn, unat (jobIndex P)) \<and> M' = M2"
    unfolding getNextJob_def Let_def P_def P2_def M2_def by (auto split: if_splits)
  from M1 have wf1: "wf_mem M1" and pn: "unat pn < length (m_jobPools M1)" and g1: "mem_grows M M1"
    by simp_all
  note st = index_step[OF wf1 pn P_def P2_def M2_def]
  show "wf_mem M'" using st(1) res by simp
  show "mem_grows M M'" using mem_grows_trans[OF g1 st(2)] res by simp
  show "valid_ptr M' q" using st(3) res by simp
  have "jobIndex (m_jobPools M2 ! unat pn) = jobIndex P + 1"
    using pn by (simp add: M2_def P2_def)
  then show "q = (unat pn, unat (jobIndex (m_jobPools M' ! unat pn) - 1))"
    using res by simp
qed

lemma allocateJob_probe_props:
  assumes "wf_mem M" and "allocateJob_probe n pn M = Inr (q, M')"
  shows "wf_mem M' \<and> mem_grows M M' \<and> valid_ptr M' q \<and> fst q = unat pn \<and> m_available (job_at M' q)"
  using assms
proof (induction n arbitrary: M)
  case 0
  then show ?case by simp
next
  case (Suc n)
  from Suc.prems(2) obtain q1 M1 where g: "getNextJob pn M = Inr (q1, M1)"
    by (auto split: sum.splits)
  note gp = getNextJob_props[OF Suc.prems(1) g]
  show ?case
  proof (cases "m_available (job_at M1 q1)")
    case True
    with Suc.prems(2) g have "q = q1" "M' = M1" by simp_all
    with gp True show ?thesis by simp
  next
    case False
    with Suc.prems(2) g have "allocateJob_probe n pn M1 = Inr (q, M')" by simp
    from Suc.IH[OF gp(1) this] mem_grows_trans[OF gp(2)] show ?thesis by blast
  qed
qed

text \<open>\<^verbatim>\<open>allocateJob\<close> is the probing loop, the five assignments and \<^verbatim>\<open>setParentJob\<close>.\<close>

lemma allocateJob_None:
  "allocateJob n None pn M = Inr (q, M') \<longleftrightarrow>
     (\<exists>M1. allocateJob_probe n pn M = Inr (q, M1) \<and> M' = job_upd q (wipe pn) M1)"
  by (auto simp add: allocateJob_def wipe_def[abs_def] Let_def split: sum.splits)

lemma allocateJob_Some:
  "allocateJob n (Some p) pn M = Inr (q, M') \<longleftrightarrow>
     (\<exists>M1. allocateJob_probe n pn M = Inr (q, M1)
        \<and> setParentJob q p (job_upd q (wipe pn) M1) = Inr M')"
  by (auto simp add: allocateJob_def wipe_def[abs_def] Let_def split: sum.splits)

lemmas job_field_upd =
  job_at_job_upd_field[where g = m_available] job_at_job_upd_field[where g = m_poolNumber]
  job_at_job_upd_field[where g = m_function] job_at_job_upd_field[where g = m_parentJob]
  job_at_job_upd_field[where g = m_numUnfinishedChildren]
  job_at_job_upd_field[where g = m_onFinishedJob] job_at_job_upd_field[where g = m_pFirstChild]
  job_at_job_upd_field[where g = m_pLastChild] job_at_job_upd_field[where g = m_pNextSibling]

lemma setParentJob_props:
  assumes wf: "wf_mem M" and vq: "valid_ptr M q" and vp: "valid_ptr M p"
    and sp: "setParentJob q p M = Inr M'"
  shows "wf_mem M'
    \<and> (\<forall>r. valid_ptr M' r = valid_ptr M r)
    \<and> m_parentJob (job_at M' q) = Some p
    \<and> m_numUnfinishedChildren (job_at M' p) = m_numUnfinishedChildren (job_at M p) + 1
    \<and> m_pLastChild (job_at M' p) = Some q
    \<and> (m_pFirstChild (job_at M p) = None \<longrightarrow> m_pFirstChild (job_at M' p) = Some q)
    \<and> (m_pFirstChild (job_at M p) \<noteq> None \<longrightarrow>
           m_pFirstChild (job_at M' p) = m_pFirstChild (job_at M p)
           \<and> (\<exists>l. m_pLastChild (job_at M p) = Some l \<and> (valid_ptr M l \<longrightarrow> m_pNextSibling (job_at M' l) = Some q)))
    \<and> (\<forall>r. r \<noteq> q \<longrightarrow> m_parentJob (job_at M' r) = m_parentJob (job_at M r))
    \<and> (\<forall>r. m_function (job_at M' r) = m_function (job_at M r)
              \<and> m_available (job_at M' r) = m_available (job_at M r)
              \<and> m_poolNumber (job_at M' r) = m_poolNumber (job_at M r)
              \<and> m_onFinishedJob (job_at M' r) = m_onFinishedJob (job_at M r))"
proof -
  define M1 where "M1 = job_upd q (\<lambda>J. J\<lparr> m_parentJob := Some p \<rparr>) M"
  define M2 where "M2 = job_upd p
                 (\<lambda>J. J\<lparr> m_numUnfinishedChildren := m_numUnfinishedChildren J + 1 \<rparr>) M1"
  have wf2: "wf_mem M2" "\<And>r. valid_ptr M2 r = valid_ptr M r"
    using wf by (simp_all add: M1_def M2_def)
  have fc: "m_pFirstChild (job_at M2 p) = m_pFirstChild (job_at M p)"
    by (simp add: M1_def M2_def job_field_upd)
  have lc: "m_pLastChild (job_at M2 p) = m_pLastChild (job_at M p)"
    by (simp add: M1_def M2_def job_field_upd)
  have par2: "m_parentJob (job_at M2 r) = (if r = q then Some p else m_parentJob (job_at M r))" for r
    using wf vq by (simp add: M1_def M2_def job_field_upd job_at_job_upd)
  have cnt2: "m_numUnfinishedChildren (job_at M2 p) = m_numUnfinishedChildren (job_at M p) + 1"
    using wf vp by (simp add: M1_def M2_def job_at_job_upd job_field_upd)
  have oth2: "m_function (job_at M2 r) = m_function (job_at M r)
              \<and> m_available (job_at M2 r) = m_available (job_at M r)
              \<and> m_poolNumber (job_at M2 r) = m_poolNumber (job_at M r)
              \<and> m_onFinishedJob (job_at M2 r) = m_onFinishedJob (job_at M r)" for r
    by (simp add: M1_def M2_def job_field_upd)
  have vp2: "valid_ptr M2 p" using vp wf2 by simp
  show ?thesis
  proof (cases "m_pFirstChild (job_at M p)")
    case None
    with sp fc have M': "M' = job_upd p (\<lambda>J. J\<lparr> m_pLastChild := Some q \<rparr>)
                 (job_upd p (\<lambda>J. J\<lparr> m_pFirstChild := Some q \<rparr>) M2)"
      by (simp add: setParentJob_def Let_def M1_def M2_def)
    show "?thesis" using None wf2 vp2 par2 cnt2 oth2
      by (simp add: M' job_at_job_upd job_field_upd)
  next
    case (Some fcv)
    with sp fc lc obtain l where l: "m_pLastChild (job_at M p) = Some l"
      and M': "M' = job_upd p (\<lambda>J. J\<lparr> m_pLastChild := Some q \<rparr>)
                      (job_upd l (\<lambda>J. J\<lparr> m_pNextSibling := Some q \<rparr>) M2)"
      by (auto simp add: setParentJob_def Let_def M1_def M2_def split: option.splits)
    have ns: "valid_ptr M l \<Longrightarrow> m_pNextSibling (job_at M' l) = Some q"
      using wf2 by (simp add: M' job_field_upd job_at_job_upd)
    show "?thesis" using Some wf2 vp2 par2 cnt2 oth2 fc l ns
      by (simp add: M' job_at_job_upd job_field_upd)
  qed
qed

lemma setParentJob_pools:
  assumes "setParentJob q p M = Inr M'"
  shows "length (m_jobPools M') = length (m_jobPools M)
    \<and> m_uninit M' = m_uninit M
    \<and> jobIndex (m_jobPools M' ! k) = jobIndex (m_jobPools M ! k)
    \<and> numJobsLeftToPlay (m_jobPools M' ! k) = numJobsLeftToPlay (m_jobPools M ! k)
    \<and> isPlayedBack (m_jobPools M' ! k) = isPlayedBack (m_jobPools M ! k)
    \<and> pOnPlaybackFinishedJob (m_jobPools M' ! k) = pOnPlaybackFinishedJob (m_jobPools M ! k)"
  using assms by (auto simp add: setParentJob_def Let_def split: if_splits option.splits)

section \<open>Allocation with a parent\<close>

lemma allocateJob_Some_props:
  assumes wf: "wf_mem M" and vp: "valid_ptr M p"
    and al: "allocateJob n (Some p) pn M = Inr (q, M')"
  shows "wf_mem M' \<and> valid_ptr M' q \<and> fst q = unat pn
    \<and> (\<forall>r. valid_ptr M r \<longrightarrow> valid_ptr M' r)
    \<and> m_parentJob (job_at M' q) = Some p
    \<and> m_numUnfinishedChildren (job_at M' p) = m_numUnfinishedChildren (job_at M p) + 1
    \<and> m_pLastChild (job_at M' p) = Some q
    \<and> (q \<noteq> p \<longrightarrow>
          (m_pFirstChild (job_at M p) = None \<longrightarrow> m_pFirstChild (job_at M' p) = Some q)
          \<and> (m_pFirstChild (job_at M p) \<noteq> None \<longrightarrow>
               m_pFirstChild (job_at M' p) = m_pFirstChild (job_at M p)
               \<and> (\<exists>l. m_pLastChild (job_at M p) = Some l
                     \<and> (valid_ptr M l \<longrightarrow> m_pNextSibling (job_at M' l) = Some q))))
    \<and> (q = p \<longrightarrow> m_pFirstChild (job_at M' p) = Some q)"
proof -
  from al obtain M1 where pr: "allocateJob_probe n pn M = Inr (q, M1)"
    and sp: "setParentJob q p (job_upd q (wipe pn) M1) = Inr M'"
    by (auto simp add: allocateJob_Some)
  from allocateJob_probe_props[OF wf pr]
  have wf1: "wf_mem M1" and g: "mem_grows M M1" and vq: "valid_ptr M1 q" and fq: "fst q = unat pn"
    by simp_all
  let ?M2 = "job_upd q (wipe pn) M1"
  have wf2: "wf_mem ?M2" using wf1 by simp
  have vq2: "valid_ptr ?M2 q" using vq by simp
  from mem_grows_old[OF g vp] have vp1: "valid_ptr M1 p" and jp1: "job_at M1 p = job_at M p"
    by simp_all
  have vp2: "valid_ptr ?M2 p" using vp1 by simp
  note sp_props = setParentJob_props[OF wf2 vq2 vp2 sp]
  have cnt2: "m_numUnfinishedChildren (job_at ?M2 p) = m_numUnfinishedChildren (job_at M p)"
    using jp1 by (simp add: job_field_upd wipe_def)
  have same: "job_at ?M2 p = job_at M p" if "q \<noteq> p"
    using that jp1 by (simp add: job_at_job_upd_other)
  have val: "valid_ptr M' r" if "valid_ptr M r" for r
    using sp_props mem_grows_old[OF g that] by (simp del: split_paired_All split_paired_Ex)
  have lv: "valid_ptr ?M2 l" if "valid_ptr M l" for l
    using mem_grows_old[OF g that] by simp
  have vq': "valid_ptr M' q" using sp_props vq2 by (simp del: split_paired_All split_paired_Ex)
  from sp_props have wf': "wf_mem M'" and pq: "m_parentJob (job_at M' q) = Some p"
    and cn: "m_numUnfinishedChildren (job_at M' p) = m_numUnfinishedChildren (job_at ?M2 p) + 1"
    and lc: "m_pLastChild (job_at M' p) = Some q"
    and fc0: "m_pFirstChild (job_at ?M2 p) = None \<longrightarrow> m_pFirstChild (job_at M' p) = Some q"
    and fc1: "m_pFirstChild (job_at ?M2 p) \<noteq> None \<longrightarrow>
           m_pFirstChild (job_at M' p) = m_pFirstChild (job_at ?M2 p)
           \<and> (\<exists>l. m_pLastChild (job_at ?M2 p) = Some l \<and> (valid_ptr ?M2 l \<longrightarrow> m_pNextSibling (job_at M' l) = Some q))"
    by blast+
  have ch: "(m_pFirstChild (job_at M p) = None \<longrightarrow> m_pFirstChild (job_at M' p) = Some q)
          \<and> (m_pFirstChild (job_at M p) \<noteq> None \<longrightarrow>
               m_pFirstChild (job_at M' p) = m_pFirstChild (job_at M p)
               \<and> (\<exists>l. m_pLastChild (job_at M p) = Some l
                     \<and> (valid_ptr M l \<longrightarrow> m_pNextSibling (job_at M' l) = Some q)))" if "q \<noteq> p"
    using fc0 fc1 same[OF that] lv by auto
  have cn': "m_numUnfinishedChildren (job_at M' p) = m_numUnfinishedChildren (job_at M p) + 1"
    using cn cnt2 by simp
  have val': "\<forall>r. valid_ptr M r \<longrightarrow> valid_ptr M' r" using val by blast
  have ch': "q \<noteq> p \<longrightarrow>
          (m_pFirstChild (job_at M p) = None \<longrightarrow> m_pFirstChild (job_at M' p) = Some q)
          \<and> (m_pFirstChild (job_at M p) \<noteq> None \<longrightarrow>
               m_pFirstChild (job_at M' p) = m_pFirstChild (job_at M p)
               \<and> (\<exists>l. m_pLastChild (job_at M p) = Some l
                     \<and> (valid_ptr M l \<longrightarrow> m_pNextSibling (job_at M' l) = Some q)))"
    using ch by blast
  have self: "q = p \<longrightarrow> m_pFirstChild (job_at M' p) = Some q"
  proof
    assume e: "q = p"
    have "m_pFirstChild (job_at ?M2 q) = None"
      using wf1 vq by (simp add: job_at_job_upd_same wipe_def)
    with fc0 e show "m_pFirstChild (job_at M' p) = Some q" by simp
  qed
  show ?thesis
    by (intro conjI; fact)
qed

lemma allocateJob_pools:
  assumes wf: "wf_mem M" and al: "allocateJob n pp pn M = Inr (q, M')"
    and k: "k < length (m_jobPools M)"
  shows "k < length (m_jobPools M')
    \<and> isPlayedBack (m_jobPools M' ! k) = isPlayedBack (m_jobPools M ! k)
    \<and> numJobsLeftToPlay (m_jobPools M' ! k) = numJobsLeftToPlay (m_jobPools M ! k)
    \<and> pOnPlaybackFinishedJob (m_jobPools M' ! k) = pOnPlaybackFinishedJob (m_jobPools M ! k)"
proof -
  from al obtain M1 where pr: "allocateJob_probe n pn M = Inr (q, M1)"
    and M': "(pp = None \<and> M' = job_upd q (wipe pn) M1)
             \<or> (\<exists>p. pp = Some p \<and> setParentJob q p (job_upd q (wipe pn) M1) = Inr M')"
    by (cases pp) (auto simp add: allocateJob_None allocateJob_Some)
  from allocateJob_probe_props[OF wf pr] have g: "mem_grows M M1" by simp
  from mem_grows_length[OF g] k have k1: "k < length (m_jobPools M1)" by simp
  note pb = mem_grows_playback[OF g k]
  from M' show ?thesis
  proof
    assume "pp = None \<and> M' = job_upd q (wipe pn) M1"
    with pb k1 show ?thesis by simp
  next
    assume "\<exists>p. pp = Some p \<and> setParentJob q p (job_upd q (wipe pn) M1) = Inr M'"
    then obtain p where "setParentJob q p (job_upd q (wipe pn) M1) = Inr M'" by blast
    from setParentJob_pools[OF this, of k] pb k1 show ?thesis by simp
  qed
qed

section \<open>The completion chain\<close>

lemma upd_job_simps [simp]:
  "memory (upd_job p f s) = job_upd p f (memory s)"
  "trace (upd_job p f s) = trace s"
  "m_jobQueues (upd_job p f s) = m_jobQueues s"
  "m_numJobs (upd_job p f s) = m_numJobs s"
  "m_jobPointers (upd_job p f s) = m_jobPointers s"
  "m_threads (upd_job p f s) = m_threads s"
  "m_threadIndexMap (upd_job p f s) = m_threadIndexMap s"
  "m_terminate (upd_job p f s) = m_terminate s"
  "rand_seq (upd_job p f s) = rand_seq s"
  "rand_pos (upd_job p f s) = rand_pos s"
  by (simp_all add: upd_job_def)

lemma addJob_ptr_frame:
  assumes "addJob_ptr f s = Inr s'"
  shows "memory s' = memory s" and "trace s' = trace s" and "m_jobPointers s' = m_jobPointers s"
    and "m_threads s' = m_threads s" and "m_threadIndexMap s' = m_threadIndexMap s"
    and "m_terminate s' = m_terminate s" and "length (m_jobQueues s') = length (m_jobQueues s)"
    and "m_numJobs s' = m_numJobs s + 1"
  using assms by (auto simp add: addJob_ptr_def rand_def Let_def split: if_splits)

lemma same_frame_refl: "same_frame s s"
  by (simp add: same_frame_def)

lemma same_frame_trans: "same_frame a b \<Longrightarrow> same_frame b c \<Longrightarrow> same_frame a c"
  unfolding same_frame_def by (simp del: split_paired_All)

lemma same_frame_trace: "same_frame s (s\<lparr> trace := t \<rparr>)"
  by (simp add: same_frame_def the_job_def)

lemma same_frame_numJobs: "same_frame s (s\<lparr> m_numJobs := t \<rparr>)"
  by (simp add: same_frame_def the_job_def)

lemma same_frame_counter:
  "same_frame s (upd_job p (\<lambda>J. J\<lparr> m_numUnfinishedChildren := g J \<rparr>) s)"
  by (simp add: same_frame_def the_job_def job_field_upd)

lemma same_frame_available:
  "same_frame s (upd_job p (\<lambda>J. J\<lparr> m_available := b \<rparr>) s)"
  by (simp add: same_frame_def the_job_def job_field_upd)

lemma same_frame_addJob_ptr: "addJob_ptr f s = Inr s' \<Longrightarrow> same_frame s s'"
  using addJob_ptr_frame[of f s s'] by (simp add: same_frame_def the_job_def)

text \<open>Induction along the completion chain, for any reflexive and transitive relation
  that the single steps respect.\<close>

lemma chain_induct:
  assumes rf: "\<And>s. Q s s" and tr: "\<And>a b c. Q a b \<Longrightarrow> Q b c \<Longrightarrow> Q a c"
    and st1: "\<And>s j. Q s (s\<lparr> trace := trace s @ [Finished j] \<rparr>)"
    and st2: "\<And>s p. Q s (upd_job p
                 (\<lambda>J. J\<lparr> m_numUnfinishedChildren := m_numUnfinishedChildren J - 1 \<rparr>) s)"
    and st3: "\<And>s f s'. addJob_ptr f s = Inr s' \<Longrightarrow> Q s s'"
    and st4: "\<And>s j. Q s (upd_job j (\<lambda>J. J\<lparr> m_available := True \<rparr>)
                        (s\<lparr> m_numJobs := m_numJobs s - 1 \<rparr>))"
  shows "(onFinished n j s = Inr s' \<longrightarrow> Q s s') \<and> (childFinished n j s = Inr s' \<longrightarrow> Q s s')"
proof -
  have cf: "childFinished n j s = Inr s' \<longrightarrow> Q s s'"
    if "\<And>j s s'. onFinished n j s = Inr s' \<longrightarrow> Q s s'" for n j s s'
  proof
    assume c: "childFinished n j s = Inr s'"
    let ?s1 = "upd_job j (\<lambda>J. J\<lparr> m_numUnfinishedChildren := m_numUnfinishedChildren J - 1 \<rparr>) s"
    show "Q s s'"
    proof (cases "m_numUnfinishedChildren (the_job s j) = 1")
      case True
      with c have "onFinished n j ?s1 = Inr s'" by (simp add: Let_def)
      with that have "Q ?s1 s'" by blast
      with st2[of s j] show ?thesis by (rule tr)
    next
      case False
      with c have "s' = ?s1" by (simp add: Let_def)
      with st2[of s j] show ?thesis by simp
    qed
  qed
  have "\<forall>j s s'. onFinished n j s = Inr s' \<longrightarrow> Q s s'"
  proof (induction n)
    case 0
    show ?case by simp
  next
    case (Suc n)
    show ?case
    proof (intro allI impI)
      fix j s s'
      assume o: "onFinished (Suc n) j s = Inr s'"
      let ?s0 = "s\<lparr> trace := trace s @ [Finished j] \<rparr>"
      from o obtain s1 where s1: "(case m_parentJob (the_job ?s0 j) of None \<Rightarrow> Inr ?s0
               | Some p \<Rightarrow> childFinished n p ?s0) = Inr s1"
        by (auto simp add: Let_def split: sum.splits)
      from o s1 obtain s2 where s2: "(case m_onFinishedJob (the_job s1 j) of None \<Rightarrow> Inr s1
                    | Some f \<Rightarrow> addJob_ptr (Some f) s1) = Inr s2"
        and s': "s' = upd_job j (\<lambda>J. J\<lparr> m_available := True \<rparr>) (s2\<lparr> m_numJobs := m_numJobs s2 - 1 \<rparr>)"
        by (auto simp add: Let_def split: sum.splits)
      have q01: "Q ?s0 s1"
      proof (cases "m_parentJob (the_job ?s0 j)")
        case None
        with s1 show ?thesis by (simp add: rf)
      next
        case (Some p)
        with s1 have "childFinished n p ?s0 = Inr s1" by simp
        with cf[of n p ?s0 s1] Suc.IH show ?thesis by blast
      qed
      have q12: "Q s1 s2"
      proof (cases "m_onFinishedJob (the_job s1 j)")
        case None
        with s2 show ?thesis by (simp add: rf)
      next
        case (Some f)
        with s2 have "addJob_ptr (Some f) s1 = Inr s2" by simp
        then show ?thesis by (rule st3)
      qed
      have q2: "Q s2 s'" unfolding s' by (rule st4)
      from tr[OF tr[OF tr[OF st1[of s j] q01] q12] q2] show "Q s s'" .
    qed
  qed
  then have of: "\<And>j s s'. onFinished n j s = Inr s' \<longrightarrow> Q s s'" by blast
  from of cf[OF of] show ?thesis by blast
qed

lemma chain_same_frame:
  "(onFinished n j s = Inr s' \<longrightarrow> same_frame s s') \<and> (childFinished n j s = Inr s' \<longrightarrow> same_frame s s')"
proof (rule chain_induct)
  show "same_frame s s" for s by (rule same_frame_refl)
  show "same_frame a b \<Longrightarrow> same_frame b c \<Longrightarrow> same_frame a c" for a b c by (rule same_frame_trans)
  show "same_frame s (s\<lparr> trace := trace s @ [Finished j] \<rparr>)" for s j by (rule same_frame_trace)
  show "same_frame s (upd_job p
                 (\<lambda>J. J\<lparr> m_numUnfinishedChildren := m_numUnfinishedChildren J - 1 \<rparr>) s)" for s p
    by (rule same_frame_counter)
  show "addJob_ptr f s = Inr s' \<Longrightarrow> same_frame s s'" for s f s' by (rule same_frame_addJob_ptr)
  show "same_frame s (upd_job j (\<lambda>J. J\<lparr> m_available := True \<rparr>)
                        (s\<lparr> m_numJobs := m_numJobs s - 1 \<rparr>))" for s j
    using same_frame_trans[OF same_frame_numJobs same_frame_available] by blast
qed

lemma chain_trace_prefix:
  "(onFinished n j s = Inr s' \<longrightarrow> (\<exists>t. trace s' = trace s @ t))
   \<and> (childFinished n j s = Inr s' \<longrightarrow> (\<exists>t. trace s' = trace s @ t))"
proof (rule chain_induct[where Q = "\<lambda>s s'. \<exists>t. trace s' = trace s @ t"])
  show "\<exists>t. trace c = trace a @ t" if "\<exists>t. trace b = trace a @ t" "\<exists>t. trace c = trace b @ t" for a b c
    using that by auto
  show "\<exists>t. trace s' = trace s @ t" if "addJob_ptr f s = Inr s'" for s f s'
    using addJob_ptr_frame(2)[OF that] by simp
qed simp_all

lemma parents_validD:
  "parents_valid M \<Longrightarrow> valid_ptr M q \<Longrightarrow> m_parentJob (job_at M q) = Some p \<Longrightarrow> valid_ptr M p"
  unfolding parents_valid_def by blast

lemma parents_valid_job_upd:
  assumes "\<And>J. m_parentJob (f J) = m_parentJob J"
  shows "parents_valid (job_upd p f M) = parents_valid M"
  using assms by (simp add: parents_valid_def job_field_upd)

lemma onFinished_trace_first:
  assumes "onFinished n j s = Inr s'"
  shows "\<exists>t. trace s' = trace s @ Finished j # t"
proof (cases n)
  case 0
  with assms show ?thesis by simp
next
  case (Suc m)
  let ?s0 = "s\<lparr> trace := trace s @ [Finished j] \<rparr>"
  from assms Suc obtain s1 where s1: "(case m_parentJob (the_job ?s0 j) of None \<Rightarrow> Inr ?s0
               | Some p \<Rightarrow> childFinished m p ?s0) = Inr s1"
    by (auto simp add: Let_def split: sum.splits)
  from assms Suc s1 obtain s2 where s2: "(case m_onFinishedJob (the_job s1 j) of None \<Rightarrow> Inr s1
                    | Some f \<Rightarrow> addJob_ptr (Some f) s1) = Inr s2"
    and s': "s' = upd_job j (\<lambda>J. J\<lparr> m_available := True \<rparr>) (s2\<lparr> m_numJobs := m_numJobs s2 - 1 \<rparr>)"
    by (auto simp add: Let_def split: sum.splits)
  have t1: "\<exists>t. trace s1 = trace ?s0 @ t"
  proof (cases "m_parentJob (the_job ?s0 j)")
    case None
    with s1 show ?thesis by auto
  next
    case (Some p)
    with s1 have "childFinished m p ?s0 = Inr s1" by simp
    with chain_trace_prefix[of m p ?s0 s1] show ?thesis by blast
  qed
  have t2: "trace s2 = trace s1"
  proof (cases "m_onFinishedJob (the_job s1 j)")
    case None
    with s2 show ?thesis by auto
  next
    case (Some f)
    with s2 have "addJob_ptr (Some f) s1 = Inr s2" by simp
    then show ?thesis by (rule addJob_ptr_frame(2))
  qed
  from t1 t2 show ?thesis by (auto simp add: s')
qed

lemma chain_bound_cf:
  assumes of: "\<And>j s s'. wf_mem (memory s) \<Longrightarrow> parents_valid (memory s) \<Longrightarrow> valid_ptr (memory s) j
      \<Longrightarrow> onFinished n j s = Inr s'
      \<Longrightarrow> count_list (trace s') (Finished q) \<le> count_list (trace s) (Finished q)
             + (if q = j then 1 else 0)
             + (if m_numUnfinishedChildren (the_job s q) = 1 then 1 else 0)"
    and wf: "wf_mem (memory s)" and pv: "parents_valid (memory s)" and vj: "valid_ptr (memory s) j"
    and c: "childFinished n j s = Inr s'"
  shows "count_list (trace s') (Finished q) \<le> count_list (trace s) (Finished q)
             + (if m_numUnfinishedChildren (the_job s q) = 1 then 1 else 0)"
proof -
  let ?s1 = "upd_job j (\<lambda>J. J\<lparr> m_numUnfinishedChildren := m_numUnfinishedChildren J - 1 \<rparr>) s"
  show ?thesis
  proof (cases "m_numUnfinishedChildren (the_job s j) = 1")
    case False
    with c have "s' = ?s1" by (simp add: Let_def)
    then show ?thesis by simp
  next
    case True
    with c have o: "onFinished n j ?s1 = Inr s'" by (simp add: Let_def)
    have wf1: "wf_mem (memory ?s1)" using wf by simp
    have pv1: "parents_valid (memory ?s1)" using pv by (simp add: parents_valid_job_upd)
    have vj1: "valid_ptr (memory ?s1) j" using vj by simp
    note b = of[OF wf1 pv1 vj1 o]
    have cj: "m_numUnfinishedChildren (the_job ?s1 j) = 0"
      using True wf vj by (simp add: the_job_def job_at_job_upd_same)
    have co: "the_job ?s1 r = the_job s r" if "r \<noteq> j" for r
      using that by (simp add: the_job_def job_at_job_upd_other)
    show ?thesis
    proof (cases "q = j")
      case True
      with b cj \<open>m_numUnfinishedChildren (the_job s j) = 1\<close> show ?thesis by simp
    next
      case False
      with b co[OF False] show ?thesis by simp
    qed
  qed
qed

lemma chain_bound_of:
  "\<forall>j s s'. wf_mem (memory s) \<longrightarrow> parents_valid (memory s) \<longrightarrow> valid_ptr (memory s) j
      \<longrightarrow> onFinished n j s = Inr s'
      \<longrightarrow> count_list (trace s') (Finished q) \<le> count_list (trace s) (Finished q)
             + (if q = j then 1 else 0)
             + (if m_numUnfinishedChildren (the_job s q) = 1 then 1 else 0)"
proof (induction n)
  case 0
  show ?case by simp
next
  case (Suc n)
  show ?case
  proof (intro allI impI)
    fix j s s'
    assume wf: "wf_mem (memory s)" and pv: "parents_valid (memory s)"
      and vj: "valid_ptr (memory s) j" and o: "onFinished (Suc n) j s = Inr s'"
    let ?s0 = "s\<lparr> trace := trace s @ [Finished j] \<rparr>"
    from o obtain s1 where s1: "(case m_parentJob (the_job ?s0 j) of None \<Rightarrow> Inr ?s0
               | Some p \<Rightarrow> childFinished n p ?s0) = Inr s1"
      by (auto simp add: Let_def split: sum.splits)
    from o s1 obtain s2 where s2: "(case m_onFinishedJob (the_job s1 j) of None \<Rightarrow> Inr s1
                    | Some f \<Rightarrow> addJob_ptr (Some f) s1) = Inr s2"
      and s': "s' = upd_job j (\<lambda>J. J\<lparr> m_available := True \<rparr>) (s2\<lparr> m_numJobs := m_numJobs s2 - 1 \<rparr>)"
      by (auto simp add: Let_def split: sum.splits)
    have t2: "trace s2 = trace s1"
    proof (cases "m_onFinishedJob (the_job s1 j)")
      case None
      with s2 show ?thesis by auto
    next
      case (Some f)
      with s2 have "addJob_ptr (Some f) s1 = Inr s2" by simp
      then show ?thesis by (rule addJob_ptr_frame(2))
    qed
    have c0: "count_list (trace ?s0) (Finished q) = count_list (trace s) (Finished q) + (if q = j then 1 else 0)"
      by simp
    have j0: "the_job ?s0 r = the_job s r" for r by (simp add: the_job_def)
    have b1: "count_list (trace s1) (Finished q) \<le> count_list (trace ?s0) (Finished q)
             + (if m_numUnfinishedChildren (the_job s q) = 1 then 1 else 0)"
    proof (cases "m_parentJob (the_job ?s0 j)")
      case None
      with s1 show ?thesis by auto
    next
      case (Some p)
      with s1 have c: "childFinished n p ?s0 = Inr s1" by simp
      from Some have "m_parentJob (job_at (memory s) j) = Some p" by (simp add: the_job_def)
      from parents_validD[OF pv vj this] have vp: "valid_ptr (memory ?s0) p" by simp
      have "count_list (trace s1) (Finished q) \<le> count_list (trace ?s0) (Finished q)
             + (if m_numUnfinishedChildren (the_job ?s0 q) = 1 then 1 else 0)"
      proof (rule chain_bound_cf[OF _ _ _ vp c])
        show "wf_mem (memory ?s0)" using wf by simp
        show "parents_valid (memory ?s0)" using pv by simp
        show "count_list (trace s'a) (Finished q) \<le> count_list (trace sa) (Finished q)
             + (if q = ja then 1 else 0)
             + (if m_numUnfinishedChildren (the_job sa q) = 1 then 1 else 0)"
          if "wf_mem (memory sa)" "parents_valid (memory sa)" "valid_ptr (memory sa) ja"
            "onFinished n ja sa = Inr s'a" for ja sa s'a
          using Suc.IH that by blast
      qed
      then show ?thesis by (simp add: j0)
    qed
    have "trace s' = trace s1" using t2 by (simp add: s')
    with b1 c0 show "count_list (trace s') (Finished q) \<le> count_list (trace s) (Finished q)
             + (if q = j then 1 else 0)
             + (if m_numUnfinishedChildren (the_job s q) = 1 then 1 else 0)"
      by simp
  qed
qed

lemma childFinished_count:
  assumes wf: "wf_mem (memory s)" and pv: "parents_valid (memory s)" and vj: "valid_ptr (memory s) j"
    and c: "childFinished n j s = Inr s'"
  shows "count_list (trace s') (Finished j) = count_list (trace s) (Finished j)
             + (if m_numUnfinishedChildren (the_job s j) = 1 then 1 else 0)"
proof -
  have le: "count_list (trace s') (Finished j) \<le> count_list (trace s) (Finished j)
             + (if m_numUnfinishedChildren (the_job s j) = 1 then 1 else 0)"
  proof (rule chain_bound_cf[OF _ wf pv vj c])
    show "count_list (trace s'a) (Finished j) \<le> count_list (trace sa) (Finished j)
             + (if j = ja then 1 else 0)
             + (if m_numUnfinishedChildren (the_job sa j) = 1 then 1 else 0)"
      if "wf_mem (memory sa)" "parents_valid (memory sa)" "valid_ptr (memory sa) ja"
        "onFinished n ja sa = Inr s'a" for ja sa s'a
      using chain_bound_of[of n j] that by blast
  qed
  let ?s1 = "upd_job j (\<lambda>J. J\<lparr> m_numUnfinishedChildren := m_numUnfinishedChildren J - 1 \<rparr>) s"
  have ge: "count_list (trace s) (Finished j)
             + (if m_numUnfinishedChildren (the_job s j) = 1 then 1 else 0) \<le> count_list (trace s') (Finished j)"
  proof (cases "m_numUnfinishedChildren (the_job s j) = 1")
    case False
    with c have "s' = ?s1" by (simp add: Let_def)
    with False show ?thesis by simp
  next
    case True
    with c have "onFinished n j ?s1 = Inr s'" by (simp add: Let_def)
    from onFinished_trace_first[OF this] obtain t where "trace s' = trace s @ Finished j # t"
      by auto
    with True show ?thesis by simp
  qed
  from le ge show ?thesis by simp
qed

section \<open>The interface keeps the invariant and does not write the log\<close>

lemma parents_valid_grows:
  assumes g: "mem_grows M M'" and pv: "parents_valid M"
  shows "parents_valid M'"
  unfolding parents_valid_def
proof (intro allI impI)
  fix q p
  assume v: "valid_ptr M' q" and par: "m_parentJob (job_at M' q) = Some p"
  show "valid_ptr M' p"
  proof (cases "valid_ptr M q")
    case True
    from mem_grows_old[OF g True] par have "m_parentJob (job_at M q) = Some p" by simp
    from parents_validD[OF pv True this] mem_grows_old[OF g] show ?thesis by blast
  next
    case False
    from mem_grows_new[OF g v False] par show ?thesis by (simp add: Job_new_def)
  qed
qed

lemma pool_upd_frame:
  assumes jl: "jobLists P' = jobLists (m_jobPools M ! k)"
    and wfp: "wf_pool (m_jobPools M ! k) \<longrightarrow> wf_pool P'"
  shows "valid_ptr (M\<lparr> m_jobPools := (m_jobPools M)[k := P'] \<rparr>) r = valid_ptr M r"
    and "job_at (M\<lparr> m_jobPools := (m_jobPools M)[k := P'] \<rparr>) r = job_at M r"
    and "wf_mem M \<Longrightarrow> wf_mem (M\<lparr> m_jobPools := (m_jobPools M)[k := P'] \<rparr>)"
    and "parents_valid (M\<lparr> m_jobPools := (m_jobPools M)[k := P'] \<rparr>) = parents_valid M"
proof -
  let ?M' = "M\<lparr> m_jobPools := (m_jobPools M)[k := P'] \<rparr>"
  have jl': "jobLists (m_jobPools ?M' ! i) = jobLists (m_jobPools M ! i)" for i
  proof (cases "k < length (m_jobPools M)")
    case True
    then show ?thesis using jl by (simp add: nth_list_update)
  next
    case False
    then show ?thesis by (simp add: not_less list_update_beyond)
  qed
  show v: "valid_ptr ?M' r = valid_ptr M r" for r
    using jl'[of "fst r"] by (simp add: valid_ptr_def)
  show j: "job_at ?M' r = job_at M r" for r
    using jl'[of "fst r"] by (simp add: job_at_def pool_job_def)
  show "wf_mem ?M'" if "wf_mem M"
  proof (cases "k < length (m_jobPools M)")
    case True
    with that wfp show ?thesis
      by (auto simp add: wf_mem_def list_all_length nth_list_update)
  next
    case False
    with that show ?thesis by (simp add: not_less list_update_beyond)
  qed
  show "parents_valid ?M' = parents_valid M"
    by (simp add: parents_valid_def v j)
qed

lemma wf_pool_fields:
  "wf_pool (P\<lparr> isPlayedBack := a \<rparr>) = wf_pool P"
  "wf_pool (P\<lparr> numJobsLeftToPlay := b \<rparr>) = wf_pool P"
  "wf_pool (P\<lparr> pOnPlaybackFinishedJob := c \<rparr>) = wf_pool P"
  "wf_pool P \<Longrightarrow> wf_pool (P\<lparr> jobIndex := 0 \<rparr>)"
  by (simp_all add: wf_pool_def)

lemma resetPool_ok:
  assumes wf: "wf_mem M" and pv: "parents_valid M" and r: "resetPool pn M = Inr M'"
  shows "wf_mem M' \<and> parents_valid M' \<and> (\<forall>q. valid_ptr M q \<longrightarrow> valid_ptr M' q)"
proof (cases "unat pn > length (m_jobPools M) - 1")
  case True
  from resetPool_missing[OF wf True r] mem_grows_append_pools[OF wf]
  have g: "mem_grows M M'" and wf': "wf_mem M'" by simp_all
  from parents_valid_grows[OF g pv] wf' mem_grows_old[OF g] show ?thesis by blast
next
  case False
  with r have M': "M' = M\<lparr> m_jobPools := (m_jobPools M)
                    [unat pn := (m_jobPools M ! unat pn)\<lparr> jobIndex := 0 \<rparr>] \<rparr>"
    by (simp add: resetPool_def)
  have a: "jobLists ((m_jobPools M ! unat pn)\<lparr> jobIndex := 0 \<rparr>) = jobLists (m_jobPools M ! unat pn)"
    by simp
  have b: "wf_pool (m_jobPools M ! unat pn) \<longrightarrow> wf_pool ((m_jobPools M ! unat pn)\<lparr> jobIndex := 0 \<rparr>)"
    by (simp add: wf_pool_fields)
  note f = pool_upd_frame[OF a b]
  from f(1) f(3)[OF wf] f(4) pv show ?thesis
    by (simp add: M')
qed

lemma allocateJob_ok:
  assumes wf: "wf_mem M" and pv: "parents_valid M"
    and vp: "\<And>p. pp = Some p \<Longrightarrow> valid_ptr M p"
    and al: "allocateJob n pp pn M = Inr (q, M')"
  shows "wf_mem M' \<and> parents_valid M' \<and> valid_ptr M' q \<and> (\<forall>r. valid_ptr M r \<longrightarrow> valid_ptr M' r)"
proof -
  from al obtain M1 where pr: "allocateJob_probe n pn M = Inr (q, M1)"
    and M': "(pp = None \<and> M' = job_upd q (wipe pn) M1)
             \<or> (\<exists>p. pp = Some p \<and> setParentJob q p (job_upd q (wipe pn) M1) = Inr M')"
    by (cases pp) (auto simp add: allocateJob_None allocateJob_Some)
  from allocateJob_probe_props[OF wf pr]
  have wf1: "wf_mem M1" and g: "mem_grows M M1" and vq: "valid_ptr M1 q" by simp_all
  let ?M2 = "job_upd q (wipe pn) M1"
  have pv1: "parents_valid M1" by (rule parents_valid_grows[OF g pv])
  have wf2: "wf_mem ?M2" using wf1 by simp
  have pv2: "parents_valid ?M2" using pv1 by (simp add: parents_valid_job_upd wipe_def)
  have vq2: "valid_ptr ?M2 q" using vq by simp
  have mono2: "valid_ptr ?M2 r" if "valid_ptr M r" for r
    using mem_grows_old[OF g that] by simp
  from M' show ?thesis
  proof
    assume "pp = None \<and> M' = job_upd q (wipe pn) M1"
    with wf2 pv2 vq2 mono2 show ?thesis by blast
  next
    assume "\<exists>p. pp = Some p \<and> setParentJob q p (job_upd q (wipe pn) M1) = Inr M'"
    then obtain p where pp: "pp = Some p" and sp: "setParentJob q p ?M2 = Inr M'" by blast
    from vp[OF pp] mono2 have vp2: "valid_ptr ?M2 p" by blast
    note props = setParentJob_props[OF wf2 vq2 vp2 sp]
    from props have wf': "wf_mem M'" by blast
    from props have val: "valid_ptr M' r = valid_ptr ?M2 r" for r by blast
    from props have pq: "m_parentJob (job_at M' q) = Some p" by blast
    from props have po: "r \<noteq> q \<Longrightarrow> m_parentJob (job_at M' r) = m_parentJob (job_at ?M2 r)" for r
      by blast
    have pv': "parents_valid M'"
      unfolding parents_valid_def
    proof (intro allI impI)
      fix r x
      assume v: "valid_ptr M' r" and par: "m_parentJob (job_at M' r) = Some x"
      show "valid_ptr M' x"
      proof (cases "r = q")
        case True
        with par pq have "x = p" by simp
        with vp2 val show ?thesis by simp
      next
        case False
        from po[OF False] par have "m_parentJob (job_at ?M2 r) = Some x" by simp
        from parents_validD[OF pv2 _ this] v val show ?thesis by simp
      qed
    qed
    from wf' pv' vq2 val mono2 show ?thesis by blast
  qed
qed

lemma api_step_refl: "api_step s s"
  by (simp add: api_step_def)

lemma api_step_trans: "api_step a b \<Longrightarrow> api_step b c \<Longrightarrow> api_step a c"
  unfolding api_step_def by (simp del: split_paired_All)

lemma api_stepD:
  assumes "api_step s s'" and "sys_inv s"
  shows "sys_inv s'" and "valid_ptr (memory s) r \<Longrightarrow> valid_ptr (memory s') r"
    and "trace s' = trace s"
  using assms unfolding api_step_def by blast+

lemma api_step_trace: "api_step s s' \<Longrightarrow> trace s' = trace s"
  by (simp add: api_step_def)

lemma pointers_valid_mono:
  assumes "list_all (\<lambda>c. case c of None \<Rightarrow> True | Some p \<Rightarrow> valid_ptr M p) xs"
    and "\<And>r. valid_ptr M r \<Longrightarrow> valid_ptr M' r"
  shows "list_all (\<lambda>c. case c of None \<Rightarrow> True | Some p \<Rightarrow> valid_ptr M' p) xs"
  using assms by (induction xs) (auto split: option.splits)

lemma api_step_memory:
  assumes tr: "trace s' = trace s" and jp: "m_jobPointers s' = m_jobPointers s"
    and ok: "sys_inv s \<Longrightarrow> wf_mem (memory s') \<and> parents_valid (memory s')
                \<and> (\<forall>r. valid_ptr (memory s) r \<longrightarrow> valid_ptr (memory s') r)"
  shows "api_step s s'"
  unfolding api_step_def
proof (intro conjI impI)
  show "trace s' = trace s" by (rule tr)
  assume i: "sys_inv s"
  from ok[OF i] have wf: "wf_mem (memory s')" and pv: "parents_valid (memory s')"
    and mono: "\<And>r. valid_ptr (memory s) r \<Longrightarrow> valid_ptr (memory s') r" by blast+
  from i have "list_all (\<lambda>c. case c of None \<Rightarrow> True | Some p \<Rightarrow> valid_ptr (memory s) p)
          (m_jobPointers s)" by (simp add: sys_inv_def)
  from pointers_valid_mono[OF this mono]
  have "list_all (\<lambda>c. case c of None \<Rightarrow> True | Some p \<Rightarrow> valid_ptr (memory s') p)
          (m_jobPointers s')" by (simp add: jp)
  with wf pv show "sys_inv s'" by (simp add: sys_inv_def)
  show "\<forall>r. valid_ptr (memory s) r \<longrightarrow> valid_ptr (memory s') r" using mono by blast
qed

lemma api_step_same_memory:
  assumes "trace s' = trace s" and "m_jobPointers s' = m_jobPointers s" and "memory s' = memory s"
  shows "api_step s s'"
  by (rule api_step_memory) (simp_all add: assms sys_inv_def)

lemma api_step_addJob_ptr: "addJob_ptr f s = Inr s' \<Longrightarrow> api_step s s'"
  using addJob_ptr_frame[of f s s'] by (simp add: api_step_same_memory)

lemma getJobPointer_props:
  assumes "getJobPointer tid s = Inr (c, s1)"
  shows "memory s1 = memory s" and "trace s1 = trace s" and "m_jobPointers s1 = m_jobPointers s"
    and "m_jobQueues s1 = m_jobQueues s" and "m_numJobs s1 = m_numJobs s"
    and "m_threads s1 = m_threads s" and "rand_pos s1 = rand_pos s" and "rand_seq s1 = rand_seq s"
    and "c \<in> set (m_jobPointers s)"
  using assms
  by (auto simp add: getJobPointer_def getThreadNumber_def Let_def split: option.splits if_splits)

lemma current_valid:
  assumes "sys_inv s" and "Some p \<in> set (m_jobPointers s)"
  shows "valid_ptr (memory s) p"
  using assms by (auto simp add: sys_inv_def list_all_iff)

lemma api_step_getJobPointer: "getJobPointer tid s = Inr (c, s1) \<Longrightarrow> api_step s s1"
  using getJobPointer_props[of tid s c s1] by (simp add: api_step_same_memory)

text \<open>Replacing the memory by the result of an allocation and of stores that keep the
  parent pointers.\<close>

lemma api_step_alloc:
  assumes al: "allocateJob n pp pn (memory s) = Inr (q, M1)"
    and vp: "\<And>p. sys_inv s \<Longrightarrow> pp = Some p \<Longrightarrow> valid_ptr (memory s) p"
    and M': "wf_mem M1 \<Longrightarrow> parents_valid M1 \<Longrightarrow>
               wf_mem M' \<and> parents_valid M' \<and> (\<forall>r. valid_ptr M' r = valid_ptr M1 r)"
  shows "api_step s (s\<lparr> memory := M' \<rparr>)"
proof (rule api_step_memory)
  assume i: "sys_inv s"
  then have wf: "wf_mem (memory s)" and pv: "parents_valid (memory s)"
    by (simp_all add: sys_inv_def)
  from allocateJob_ok[OF wf pv vp[OF i] al]
  have a: "wf_mem M1" "parents_valid M1" "\<And>r. valid_ptr (memory s) r \<Longrightarrow> valid_ptr M1 r"
    by blast+
  from M'[OF a(1,2)] a(3)
  show "wf_mem (memory (s\<lparr> memory := M' \<rparr>)) \<and> parents_valid (memory (s\<lparr> memory := M' \<rparr>))
      \<and> (\<forall>r. valid_ptr (memory s) r \<longrightarrow> valid_ptr (memory (s\<lparr> memory := M' \<rparr>)) r)"
    by (simp del: split_paired_All)
qed simp_all

lemma setFunction_ok:
  "wf_mem M1 \<Longrightarrow> parents_valid M1 \<Longrightarrow>
     wf_mem (setFunction q f M1) \<and> parents_valid (setFunction q f M1)
     \<and> (\<forall>r. valid_ptr (setFunction q f M1) r = valid_ptr M1 r)"
  by (simp add: setFunction_def parents_valid_job_upd)

lemma setOnFinished_ok:
  "wf_mem M1 \<Longrightarrow> parents_valid M1 \<Longrightarrow>
     wf_mem (setOnFinished c q (setFunction q f M1))
     \<and> parents_valid (setOnFinished c q (setFunction q f M1))
     \<and> (\<forall>r. valid_ptr (setOnFinished c q (setFunction q f M1)) r = valid_ptr M1 r)"
  by (simp add: setFunction_def setOnFinished_def parents_valid_job_upd)

lemma addJob_inv:
  assumes "addJob fuel tid func pn s = Inr s'"
  shows "\<exists>c s1 q M1. getJobPointer tid s = Inr (c, s1)
     \<and> allocateJob fuel None pn (memory s1) = Inr (q, M1)
     \<and> addJob_ptr (Some q) (s1\<lparr> memory := setFunction q func M1 \<rparr>) = Inr s'"
  using assms by (auto simp add: addJob_def split: sum.splits prod.splits if_splits)

lemma api_step_addJob:
  assumes "addJob fuel tid func pn s = Inr s'"
  shows "api_step s s'"
proof -
  from addJob_inv[OF assms] obtain c s1 q M1 where gp: "getJobPointer tid s = Inr (c, s1)"
    and al: "allocateJob fuel None pn (memory s1) = Inr (q, M1)"
    and ad: "addJob_ptr (Some q) (s1\<lparr> memory := setFunction q func M1 \<rparr>) = Inr s'"
    by blast
  have "api_step s1 (s1\<lparr> memory := setFunction q func M1 \<rparr>)"
    by (rule api_step_alloc[OF al]) (simp_all add: setFunction_ok)
  from api_step_trans[OF api_step_trans[OF api_step_getJobPointer[OF gp] this]
      api_step_addJob_ptr[OF ad]]
  show ?thesis .
qed

lemma addChildJob_inv:
  assumes "addChildJob fuel tid func pn s = Inr s'"
  shows "s' = s \<or> (\<exists>c s1 q M1. getJobPointer tid s = Inr (c, s1)
     \<and> allocateJob fuel c pn (memory s1) = Inr (q, M1)
     \<and> addJob_ptr (Some q) (s1\<lparr> memory := setFunction q func M1 \<rparr>) = Inr s')"
  using assms by (auto simp add: addChildJob_def split: sum.splits prod.splits if_splits)

lemma api_step_addChildJob:
  assumes "addChildJob fuel tid func pn s = Inr s'"
  shows "api_step s s'"
proof -
  from addChildJob_inv[OF assms] show ?thesis
  proof
    assume "s' = s"
    then show ?thesis by (simp add: api_step_refl)
  next
    assume "\<exists>c s1 q M1. getJobPointer tid s = Inr (c, s1)
     \<and> allocateJob fuel c pn (memory s1) = Inr (q, M1)
     \<and> addJob_ptr (Some q) (s1\<lparr> memory := setFunction q func M1 \<rparr>) = Inr s'"
    then obtain c s1 q M1 where gp: "getJobPointer tid s = Inr (c, s1)"
      and al: "allocateJob fuel c pn (memory s1) = Inr (q, M1)"
      and ad: "addJob_ptr (Some q) (s1\<lparr> memory := setFunction q func M1 \<rparr>) = Inr s'"
      by blast
    note g = getJobPointer_props[OF gp]
    have "api_step s1 (s1\<lparr> memory := setFunction q func M1 \<rparr>)"
    proof (rule api_step_alloc[OF al])
      fix p assume i: "sys_inv s1" and c: "c = Some p"
      from g(9) c have "Some p \<in> set (m_jobPointers s1)" by (simp add: g(3))
      from current_valid[OF i this] show "valid_ptr (memory s1) p" .
    qed (simp add: setFunction_ok)
    from api_step_trans[OF api_step_trans[OF api_step_getJobPointer[OF gp] this]
        api_step_addJob_ptr[OF ad]]
    show ?thesis .
  qed
qed

lemma api_step_addChildJob_current:
  assumes "addChildJob_current fuel tid func s = Inr s'"
  shows "api_step s s'"
proof -
  from assms obtain c s1 where gp: "getJobPointer tid s = Inr (Some c, s1)"
    and ac: "addChildJob fuel tid func (m_poolNumber (the_job s1 c)) s1 = Inr s'"
    by (auto simp add: addChildJob_current_def split: sum.splits prod.splits option.splits)
  from api_step_trans[OF api_step_getJobPointer[OF gp] api_step_addChildJob[OF ac]]
  show ?thesis .
qed

lemma onFinishedAddJob_inv:
  assumes "onFinishedAddJob fuel tid func s = Inr s'"
  shows "\<exists>c s1. getJobPointer tid s = Inr (Some c, s1)
     \<and> (s' = s1 \<or> (\<exists>q M1. allocateJob fuel (m_parentJob (the_job s1 c)) (m_poolNumber (the_job s1 c))
                         (memory s1) = Inr (q, M1)
           \<and> s' = s1\<lparr> memory := setOnFinished c q (setFunction q func M1) \<rparr>))"
  using assms
  by (auto simp add: onFinishedAddJob_def Let_def split: sum.splits prod.splits if_splits option.splits)

lemma api_step_onFinishedAddJob:
  assumes "onFinishedAddJob fuel tid func s = Inr s'"
  shows "api_step s s'"
proof -
  from onFinishedAddJob_inv[OF assms] obtain c s1 where gp: "getJobPointer tid s = Inr (Some c, s1)"
    and r: "s' = s1 \<or> (\<exists>q M1. allocateJob fuel (m_parentJob (the_job s1 c)) (m_poolNumber (the_job s1 c))
                         (memory s1) = Inr (q, M1)
           \<and> s' = s1\<lparr> memory := setOnFinished c q (setFunction q func M1) \<rparr>)"
    by blast
  note g = getJobPointer_props[OF gp]
  from r have "api_step s1 s'"
  proof
    assume "s' = s1"
    then show ?thesis by (simp add: api_step_refl)
  next
    assume "\<exists>q M1. allocateJob fuel (m_parentJob (the_job s1 c)) (m_poolNumber (the_job s1 c))
                         (memory s1) = Inr (q, M1)
           \<and> s' = s1\<lparr> memory := setOnFinished c q (setFunction q func M1) \<rparr>"
    then obtain q M1 where al: "allocateJob fuel (m_parentJob (the_job s1 c)) (m_poolNumber (the_job s1 c))
                         (memory s1) = Inr (q, M1)"
      and s': "s' = s1\<lparr> memory := setOnFinished c q (setFunction q func M1) \<rparr>" by blast
    show ?thesis unfolding s'
    proof (rule api_step_alloc[OF al])
      fix p assume i: "sys_inv s1" and c: "m_parentJob (the_job s1 c) = Some p"
      from g(9) have "Some c \<in> set (m_jobPointers s1)" by (simp add: g(3))
      from current_valid[OF i this] have vc: "valid_ptr (memory s1) c" .
      from i have "parents_valid (memory s1)" by (simp add: sys_inv_def)
      from parents_validD[OF this vc] c show "valid_ptr (memory s1) p" by (simp add: the_job_def)
    qed (simp add: setOnFinished_ok)
  qed
  from api_step_trans[OF api_step_getJobPointer[OF gp] this] show ?thesis .
qed

lemma playBackPool_inv:
  assumes "playBackPool fuel tid pp f s = Inr s'"
  shows "\<exists>c s1 q M1.
     getJobPointer tid s = Inr (c, s1)
     \<and> allocateJob fuel (case c of None \<Rightarrow> None | Some c \<Rightarrow> m_parentJob (the_job s1 c))
           (case c of None \<Rightarrow> 0 | Some c \<Rightarrow> m_poolNumber (the_job s1 c)) (memory s1) = Inr (q, M1)
     \<and> unat pp < length (m_jobPools (setFunction q f M1))
     \<and> ((jobIndex (m_jobPools (setFunction q f M1) ! unat pp) = 0
           \<and> addJob_ptr (Some q) (s1\<lparr> memory := setFunction q f M1 \<rparr>) = Inr s')
        \<or> (jobIndex (m_jobPools (setFunction q f M1) ! unat pp) \<noteq> 0
           \<and> addJob_ptr (Some (unat pp, 0))
                (s1\<lparr> memory := (setFunction q f M1)\<lparr> m_jobPools :=
                     (m_jobPools (setFunction q f M1))
                       [unat pp := (m_jobPools (setFunction q f M1) ! unat pp)
                            \<lparr> isPlayedBack := True,
                              numJobsLeftToPlay := jobIndex (m_jobPools (setFunction q f M1) ! unat pp),
                              pOnPlaybackFinishedJob := Some q \<rparr>] \<rparr> \<rparr>) = Inr s'))"
  using assms
  by (auto simp add: playBackPool_def Let_def split: sum.splits prod.splits if_splits)

lemma api_step_pool_fields:
  assumes "jobLists P' = jobLists (m_jobPools (memory s) ! k)"
    and "wf_pool (m_jobPools (memory s) ! k) \<longrightarrow> wf_pool P'"
  shows "api_step s (s\<lparr> memory := (memory s)\<lparr> m_jobPools := (m_jobPools (memory s))[k := P'] \<rparr> \<rparr>)"
proof (rule api_step_memory)
  note f = pool_upd_frame[OF assms]
  assume "sys_inv s"
  then have "wf_mem (memory s)" "parents_valid (memory s)" by (simp_all add: sys_inv_def)
  with f(1) f(3) f(4)
  show "wf_mem (memory (s\<lparr> memory := (memory s)\<lparr> m_jobPools := (m_jobPools (memory s))[k := P'] \<rparr> \<rparr>))
      \<and> parents_valid (memory (s\<lparr> memory := (memory s)\<lparr> m_jobPools := (m_jobPools (memory s))[k := P'] \<rparr> \<rparr>))
      \<and> (\<forall>r. valid_ptr (memory s) r \<longrightarrow>
             valid_ptr (memory (s\<lparr> memory := (memory s)\<lparr> m_jobPools := (m_jobPools (memory s))[k := P'] \<rparr> \<rparr>)) r)"
    by (simp del: split_paired_All)
qed simp_all

lemma api_step_playBackPool:
  assumes "playBackPool fuel tid pp f s = Inr s'"
  shows "api_step s s'"
proof -
  from playBackPool_inv[OF assms] obtain c s1 q M1 where
    gp: "getJobPointer tid s = Inr (c, s1)"
    and al: "allocateJob fuel (case c of None \<Rightarrow> None | Some c \<Rightarrow> m_parentJob (the_job s1 c))
           (case c of None \<Rightarrow> 0 | Some c \<Rightarrow> m_poolNumber (the_job s1 c)) (memory s1) = Inr (q, M1)"
    and r: "(jobIndex (m_jobPools (setFunction q f M1) ! unat pp) = 0
           \<and> addJob_ptr (Some q) (s1\<lparr> memory := setFunction q f M1 \<rparr>) = Inr s')
        \<or> (jobIndex (m_jobPools (setFunction q f M1) ! unat pp) \<noteq> 0
           \<and> addJob_ptr (Some (unat pp, 0))
                (s1\<lparr> memory := (setFunction q f M1)\<lparr> m_jobPools :=
                     (m_jobPools (setFunction q f M1))
                       [unat pp := (m_jobPools (setFunction q f M1) ! unat pp)
                            \<lparr> isPlayedBack := True,
                              numJobsLeftToPlay := jobIndex (m_jobPools (setFunction q f M1) ! unat pp),
                              pOnPlaybackFinishedJob := Some q \<rparr>] \<rparr> \<rparr>) = Inr s')"
    by blast
  note g = getJobPointer_props[OF gp]
  let ?s2 = "s1\<lparr> memory := setFunction q f M1 \<rparr>"
  have a12: "api_step s1 ?s2"
  proof (rule api_step_alloc[OF al])
    fix p assume i: "sys_inv s1"
      and c: "(case c of None \<Rightarrow> None | Some c \<Rightarrow> m_parentJob (the_job s1 c)) = Some p"
    from c obtain cc where cc: "c = Some cc" and par: "m_parentJob (the_job s1 cc) = Some p"
      by (cases c) auto
    from g(9) cc have "Some cc \<in> set (m_jobPointers s1)" by (simp add: g(3))
    from current_valid[OF i this] have vc: "valid_ptr (memory s1) cc" .
    from i have "parents_valid (memory s1)" by (simp add: sys_inv_def)
    from parents_validD[OF this vc] par show "valid_ptr (memory s1) p" by (simp add: the_job_def)
  qed (simp add: setFunction_ok)
  from r have "api_step ?s2 s'"
  proof
    assume "jobIndex (m_jobPools (setFunction q f M1) ! unat pp) = 0
           \<and> addJob_ptr (Some q) ?s2 = Inr s'"
    then have "addJob_ptr (Some q) ?s2 = Inr s'" by simp
    then show ?thesis by (rule api_step_addJob_ptr)
  next
    let ?P = "m_jobPools (setFunction q f M1) ! unat pp"
    let ?P' = "?P\<lparr> isPlayedBack := True, numJobsLeftToPlay := jobIndex ?P,
                    pOnPlaybackFinishedJob := Some q \<rparr>"
    let ?s3 = "?s2\<lparr> memory := (memory ?s2)\<lparr> m_jobPools := (m_jobPools (memory ?s2))[unat pp := ?P'] \<rparr> \<rparr>"
    assume "jobIndex ?P \<noteq> 0
           \<and> addJob_ptr (Some (unat pp, 0))
                (s1\<lparr> memory := (setFunction q f M1)\<lparr> m_jobPools :=
                     (m_jobPools (setFunction q f M1))[unat pp := ?P'] \<rparr> \<rparr>) = Inr s'"
    then have ad: "addJob_ptr (Some (unat pp, 0)) ?s3 = Inr s'" by simp
    have "api_step ?s2 ?s3"
      by (rule api_step_pool_fields) (simp_all add: wf_pool_def)
    from api_step_trans[OF this api_step_addJob_ptr[OF ad]] show ?thesis .
  qed
  from api_step_trans[OF api_step_trans[OF api_step_getJobPointer[OF gp] a12] this]
  show ?thesis .
qed

lemma api_step_resetPool:
  assumes "resetPool pn (memory s) = Inr M'"
  shows "api_step s (s\<lparr> memory := M' \<rparr>)"
proof (rule api_step_memory)
  assume "sys_inv s"
  then have "wf_mem (memory s)" "parents_valid (memory s)" by (simp_all add: sys_inv_def)
  from resetPool_ok[OF this assms]
  show "wf_mem (memory (s\<lparr> memory := M' \<rparr>)) \<and> parents_valid (memory (s\<lparr> memory := M' \<rparr>))
      \<and> (\<forall>r. valid_ptr (memory s) r \<longrightarrow> valid_ptr (memory (s\<lparr> memory := M' \<rparr>)) r)"
    by (simp del: split_paired_All)
qed simp_all

lemma api_step_exec_call:
  assumes "exec_call fuel tid c s = Inr s'"
  shows "api_step s s'"
proof (cases c)
  case (AddJob f p)
  with assms show ?thesis by (simp add: exec_call_def api_step_addJob)
next
  case (AddChildJob f)
  with assms show ?thesis by (simp add: exec_call_def api_step_addChildJob_current)
next
  case (AddChildJobPool f p)
  with assms show ?thesis by (simp add: exec_call_def api_step_addChildJob)
next
  case (OnFinishedAddJob f)
  with assms show ?thesis by (simp add: exec_call_def api_step_onFinishedAddJob)
next
  case OnFinishedTerminatePool
  with assms show ?thesis
    by (simp add: exec_call_def onFinishedTerminatePool_def api_step_onFinishedAddJob)
next
  case (PlayBackPool p f)
  with assms show ?thesis by (simp add: exec_call_def api_step_playBackPool)
next
  case (ResetPool p)
  with assms obtain M' where "resetPool p (memory s) = Inr M'" and "s' = s\<lparr> memory := M' \<rparr>"
    by (auto simp add: exec_call_def split: sum.splits)
  then show ?thesis by (simp add: api_step_resetPool)
next
  case Terminate
  with assms have "s' = terminate s" by (simp add: exec_call_def)
  then show ?thesis by (simp add: terminate_def api_step_same_memory)
qed

lemma api_step_exec_calls:
  "exec_calls fuel tid cs s = Inr s' \<Longrightarrow> api_step s s'"
proof (induction cs arbitrary: s)
  case Nil
  then show ?case by (simp add: api_step_refl)
next
  case (Cons c cs)
  from Cons.prems obtain s1 where c: "exec_call fuel tid c s = Inr s1"
    and r: "exec_calls fuel tid cs s1 = Inr s'"
    by (auto split: sum.splits)
  from api_step_trans[OF api_step_exec_call[OF c] Cons.IH[OF r]] show ?case .
qed

lemma api_step_call_Function:
  "call_Function fuel tid f s = Inr s' \<Longrightarrow> api_step s s'"
  by (cases f) (simp_all add: call_Function_def api_step_exec_calls)

lemma same_frame_api_step:
  assumes sf: "same_frame s s'" and tr: "trace s' = trace s"
  shows "api_step s s'"
proof (rule api_step_memory)
  from sf show "m_jobPointers s' = m_jobPointers s" by (simp add: same_frame_def)
  from sf have v: "valid_ptr (memory s') r = valid_ptr (memory s) r" for r
    unfolding same_frame_def by blast
  from sf have p: "m_parentJob (job_at (memory s') r) = m_parentJob (job_at (memory s) r)" for r
    unfolding same_frame_def the_job_def by blast
  from sf have w: "wf_mem (memory s') = wf_mem (memory s)" by (simp add: same_frame_def)
  assume "sys_inv s"
  then have "wf_mem (memory s)" "parents_valid (memory s)" by (simp_all add: sys_inv_def)
  then show "wf_mem (memory s') \<and> parents_valid (memory s')
      \<and> (\<forall>r. valid_ptr (memory s) r \<longrightarrow> valid_ptr (memory s') r)"
    by (simp add: w v p parents_valid_def)
qed (rule tr)

lemma play_children_frame:
  "play_children n this c s = Inr s' \<Longrightarrow> same_frame s s' \<and> trace s' = trace s"
proof (induction n arbitrary: c s)
  case 0
  then show ?case by (cases c) (simp_all add: same_frame_refl)
next
  case (Suc n)
  show ?case
  proof (cases c)
    case None
    with Suc.prems show ?thesis by (simp add: same_frame_refl)
  next
    case (Some ch)
    let ?s0 = "upd_job this (\<lambda>J. J\<lparr> m_numUnfinishedChildren := m_numUnfinishedChildren J + 1 \<rparr>) s"
    from Suc.prems Some obtain s1 where ad: "addJob_ptr (Some ch) ?s0 = Inr s1"
      and r: "play_children n this (m_pNextSibling (the_job s1 ch)) s1 = Inr s'"
      by (auto split: sum.splits)
    have a: "same_frame s ?s0" by (rule same_frame_counter)
    have b: "same_frame ?s0 s1" by (rule same_frame_addJob_ptr[OF ad])
    from Suc.IH[OF r] same_frame_trans[OF same_frame_trans[OF a b]] addJob_ptr_frame(2)[OF ad]
    show ?thesis by simp
  qed
qed

lemma addJob_ptr_queues:
  assumes "addJob_ptr f s = Inr s'"
  shows "\<exists>i < length (m_jobQueues s).
           m_jobQueues s' = (m_jobQueues s)[i := push f (m_jobQueues s ! i)]"
  using assms by (auto simp add: addJob_ptr_def rand_def Let_def split: if_splits)

lemma play_back_block_inv:
  assumes pb: "play_back_block n j pn s = Inr s'" and pn: "pn < length (m_jobPools (memory s))"
  shows "\<exists>s1. play_children n j (m_pFirstChild (the_job s j)) s = Inr s1
     \<and> same_frame s s1 \<and> trace s1 = trace s
     \<and> ((numJobsLeftToPlay (m_jobPools (memory s1) ! pn) = 1
           \<and> addJob_ptr (pOnPlaybackFinishedJob (m_jobPools (memory s1) ! pn))
                (s1\<lparr> memory := (memory s1)\<lparr> m_jobPools := (m_jobPools (memory s1))
                      [pn := (m_jobPools (memory s1) ! pn)
                               \<lparr> numJobsLeftToPlay := 0, isPlayedBack := False \<rparr>] \<rparr> \<rparr>) = Inr s')
        \<or> (numJobsLeftToPlay (m_jobPools (memory s1) ! pn) \<noteq> 1
           \<and> s' = s1\<lparr> memory := (memory s1)\<lparr> m_jobPools := (m_jobPools (memory s1))
                      [pn := (m_jobPools (memory s1) ! pn)
                               \<lparr> numJobsLeftToPlay :=
                                   numJobsLeftToPlay (m_jobPools (memory s1) ! pn) - 1 \<rparr>] \<rparr> \<rparr>))"
proof -
  from pb obtain s1 where pc: "play_children n j (m_pFirstChild (the_job s j)) s = Inr s1"
    by (auto simp add: play_back_block_def split: sum.splits)
  from play_children_frame[OF pc] have sf: "same_frame s s1" and tr: "trace s1 = trace s"
    by simp_all
  from sf pn have pn1: "pn < length (m_jobPools (memory s1))" by (simp add: same_frame_def)
  show ?thesis
  proof (cases "numJobsLeftToPlay (m_jobPools (memory s1) ! pn) = 1")
    case True
    with pb pc pn1 show ?thesis
      using sf tr by (simp add: play_back_block_def Let_def)
  next
    case False
    with pb pc pn1 show ?thesis
      using sf tr by (simp add: play_back_block_def Let_def)
  qed
qed

lemma api_step_play_back_block:
  assumes pb: "play_back_block n j pn s = Inr s'" and pn: "pn < length (m_jobPools (memory s))"
  shows "api_step s s'"
proof -
  from play_back_block_inv[OF pb pn] obtain s1 where
    sf: "same_frame s s1" and tr: "trace s1 = trace s"
    and r: "(numJobsLeftToPlay (m_jobPools (memory s1) ! pn) = 1
           \<and> addJob_ptr (pOnPlaybackFinishedJob (m_jobPools (memory s1) ! pn))
                (s1\<lparr> memory := (memory s1)\<lparr> m_jobPools := (m_jobPools (memory s1))
                      [pn := (m_jobPools (memory s1) ! pn)
                               \<lparr> numJobsLeftToPlay := 0, isPlayedBack := False \<rparr>] \<rparr> \<rparr>) = Inr s')
        \<or> (numJobsLeftToPlay (m_jobPools (memory s1) ! pn) \<noteq> 1
           \<and> s' = s1\<lparr> memory := (memory s1)\<lparr> m_jobPools := (m_jobPools (memory s1))
                      [pn := (m_jobPools (memory s1) ! pn)
                               \<lparr> numJobsLeftToPlay :=
                                   numJobsLeftToPlay (m_jobPools (memory s1) ! pn) - 1 \<rparr>] \<rparr> \<rparr>)"
    by blast
  have a: "api_step s s1" by (rule same_frame_api_step[OF sf tr])
  from r have "api_step s1 s'"
  proof
    let ?s2 = "s1\<lparr> memory := (memory s1)\<lparr> m_jobPools := (m_jobPools (memory s1))
                      [pn := (m_jobPools (memory s1) ! pn)
                               \<lparr> numJobsLeftToPlay := 0, isPlayedBack := False \<rparr>] \<rparr> \<rparr>"
    assume "numJobsLeftToPlay (m_jobPools (memory s1) ! pn) = 1
           \<and> addJob_ptr (pOnPlaybackFinishedJob (m_jobPools (memory s1) ! pn)) ?s2 = Inr s'"
    then have ad: "addJob_ptr (pOnPlaybackFinishedJob (m_jobPools (memory s1) ! pn)) ?s2 = Inr s'"
      by simp
    have "api_step s1 ?s2" by (rule api_step_pool_fields) (simp_all add: wf_pool_def)
    from api_step_trans[OF this api_step_addJob_ptr[OF ad]] show ?thesis .
  next
    assume "numJobsLeftToPlay (m_jobPools (memory s1) ! pn) \<noteq> 1
           \<and> s' = s1\<lparr> memory := (memory s1)\<lparr> m_jobPools := (m_jobPools (memory s1))
                      [pn := (m_jobPools (memory s1) ! pn)
                               \<lparr> numJobsLeftToPlay :=
                                   numJobsLeftToPlay (m_jobPools (memory s1) ! pn) - 1 \<rparr>] \<rparr> \<rparr>"
    then have s': "s' = s1\<lparr> memory := (memory s1)\<lparr> m_jobPools := (m_jobPools (memory s1))
                      [pn := (m_jobPools (memory s1) ! pn)
                               \<lparr> numJobsLeftToPlay :=
                                   numJobsLeftToPlay (m_jobPools (memory s1) ! pn) - 1 \<rparr>] \<rparr> \<rparr>"
      by simp
    show ?thesis unfolding s' by (rule api_step_pool_fields) (simp_all add: wf_pool_def)
  qed
  from api_step_trans[OF a this] show ?thesis .
qed

lemma sys_inv_trace: "sys_inv (s\<lparr> trace := t \<rparr>) = sys_inv s"
  by (simp add: sys_inv_def cong: option.case_cong)

lemma Job_body_inv:
  assumes "Job_body fuel tid j f s = Inr s2"
  shows "\<exists>s1. call_Function fuel tid f
             ((upd_job j (\<lambda>J. J\<lparr> m_numUnfinishedChildren := 1 \<rparr>) s)
                \<lparr> trace := trace s @ [Invoked j] \<rparr>) = Inr s1
     \<and> unat (m_poolNumber (the_job s1 j)) < length (m_jobPools (memory s1))
     \<and> ((isPlayedBack (m_jobPools (memory s1) ! unat (m_poolNumber (the_job s1 j)))
          \<and> play_back_block fuel j (unat (m_poolNumber (the_job s1 j))) s1 = Inr s2)
        \<or> (\<not> isPlayedBack (m_jobPools (memory s1) ! unat (m_poolNumber (the_job s1 j)))
          \<and> s2 = s1))"
  using assms by (auto simp add: Job_body_def Let_def split: sum.splits if_splits)

lemma Job_body_props:
  assumes jb: "Job_body fuel tid j f s = Inr s2" and i: "sys_inv s" and vj: "valid_ptr (memory s) j"
  shows "sys_inv s2" and "valid_ptr (memory s2) j" and "trace s2 = trace s @ [Invoked j]"
proof -
  let ?s0 = "(upd_job j (\<lambda>J. J\<lparr> m_numUnfinishedChildren := 1 \<rparr>) s)\<lparr> trace := trace s @ [Invoked j] \<rparr>"
  from Job_body_inv[OF jb] obtain s1 where cf: "call_Function fuel tid f ?s0 = Inr s1"
    and pn: "unat (m_poolNumber (the_job s1 j)) < length (m_jobPools (memory s1))"
    and r: "(isPlayedBack (m_jobPools (memory s1) ! unat (m_poolNumber (the_job s1 j)))
          \<and> play_back_block fuel j (unat (m_poolNumber (the_job s1 j))) s1 = Inr s2)
        \<or> (\<not> isPlayedBack (m_jobPools (memory s1) ! unat (m_poolNumber (the_job s1 j)))
          \<and> s2 = s1)"
    by blast
  have a0: "api_step s (upd_job j (\<lambda>J. J\<lparr> m_numUnfinishedChildren := 1 \<rparr>) s)"
    by (rule same_frame_api_step[OF same_frame_counter]) simp
  from api_stepD(1)[OF a0 i] have i0: "sys_inv ?s0" by (simp add: sys_inv_trace)
  from vj have v0: "valid_ptr (memory ?s0) j" by simp
  note a1 = api_step_call_Function[OF cf]
  from r have a2: "api_step s1 s2"
  proof
    assume "isPlayedBack (m_jobPools (memory s1) ! unat (m_poolNumber (the_job s1 j)))
          \<and> play_back_block fuel j (unat (m_poolNumber (the_job s1 j))) s1 = Inr s2"
    then have "play_back_block fuel j (unat (m_poolNumber (the_job s1 j))) s1 = Inr s2" by simp
    from api_step_play_back_block[OF this pn] show ?thesis .
  next
    assume "\<not> isPlayedBack (m_jobPools (memory s1) ! unat (m_poolNumber (the_job s1 j))) \<and> s2 = s1"
    then show ?thesis by (simp add: api_step_refl)
  qed
  note a = api_step_trans[OF a1 a2]
  from api_stepD[OF a i0] v0
  show "sys_inv s2" and "valid_ptr (memory s2) j" and "trace s2 = trace s @ [Invoked j]"
    by simp_all
qed

lemma Job_call_split:
  "Job_call fuel tid j s =
     (case m_function (the_job s j) of
        None \<Rightarrow> Inr s
      | Some f \<Rightarrow>
          (case Job_body fuel tid j f s of
             Inl e \<Rightarrow> Inl e
           | Inr s2 \<Rightarrow> childFinished fuel j s2))"
  by (simp add: Job_call_def Job_body_def Let_def split: option.splits sum.splits)


section \<open>The completion chain ends\<close>

lemma finite_valid: "finite {q. valid_ptr M q}"
proof -
  have "{q. valid_ptr M q} \<subseteq>
          (SIGMA a : {..< length (m_jobPools M)}.
             {..< length (jobLists (m_jobPools M ! a)) * m_listLength})"
    by (auto simp add: valid_ptr_def)
  moreover have "finite (SIGMA a : {..< length (m_jobPools M)}.
             {..< length (jobLists (m_jobPools M ! a)) * m_listLength})"
    by (rule finite_SigmaI) simp_all
  ultimately show ?thesis by (rule finite_subset)
qed

lemma finite_last_ones: "finite (last_ones s)"
  unfolding last_ones_def by (rule finite_subset[OF _ finite_valid[of "memory s"]]) auto

lemma addJob_ptr_total:
  assumes "queues_ok s"
  shows "\<exists>s'. addJob_ptr f s = Inr s'"
  using assms by (simp add: addJob_ptr_def queues_ok_def rand_def Let_def)

lemma last_ones_dec:
  assumes wf: "wf_mem (memory s)" and vj: "valid_ptr (memory s) j"
    and one: "m_numUnfinishedChildren (the_job s j) = 1"
  shows "card (last_ones (upd_job j
           (\<lambda>J. J\<lparr> m_numUnfinishedChildren := m_numUnfinishedChildren J - 1 \<rparr>) s)) < card (last_ones s)"
proof -
  let ?s1 = "upd_job j (\<lambda>J. J\<lparr> m_numUnfinishedChildren := m_numUnfinishedChildren J - 1 \<rparr>) s"
  have cj: "m_numUnfinishedChildren (the_job ?s1 j) = 0"
    using one wf vj by (simp add: the_job_def job_at_job_upd_same)
  have co: "the_job ?s1 r = the_job s r" if "r \<noteq> j" for r
    using that by (simp add: the_job_def job_at_job_upd_other)
  have "last_ones ?s1 = last_ones s - {j}"
  proof (rule set_eqI)
    fix r
    show "r \<in> last_ones ?s1 \<longleftrightarrow> r \<in> last_ones s - {j}"
    proof (cases "r = j")
      case True
      with cj show ?thesis by (simp add: last_ones_def)
    next
      case False
      with co[OF False] show ?thesis by (simp add: last_ones_def)
    qed
  qed
  moreover have "j \<in> last_ones s" using vj one by (simp add: last_ones_def)
  then have "card (last_ones s - {j}) < card (last_ones s)"
    by (rule card_Diff1_less[OF finite_last_ones])
  ultimately show ?thesis by simp
qed

lemma chain_total_cf:
  assumes of: "\<And>j s. wf_mem (memory s) \<Longrightarrow> parents_valid (memory s) \<Longrightarrow> queues_ok s
      \<Longrightarrow> valid_ptr (memory s) j \<Longrightarrow> card (last_ones s) < n \<Longrightarrow> \<exists>s'. onFinished n j s = Inr s'"
    and wf: "wf_mem (memory s)" and pv: "parents_valid (memory s)" and qo: "queues_ok s"
    and vj: "valid_ptr (memory s) j" and c: "card (last_ones s) \<le> n"
  shows "\<exists>s'. childFinished n j s = Inr s'"
proof (cases "m_numUnfinishedChildren (the_job s j) = 1")
  case False
  then show ?thesis by (simp add: Let_def)
next
  case True
  let ?s1 = "upd_job j (\<lambda>J. J\<lparr> m_numUnfinishedChildren := m_numUnfinishedChildren J - 1 \<rparr>) s"
  from last_ones_dec[OF wf vj True] c have lt: "card (last_ones ?s1) < n" by simp
  have "\<exists>s'. onFinished n j ?s1 = Inr s'"
  proof (rule of[OF _ _ _ _ lt])
    show "wf_mem (memory ?s1)" using wf by simp
    show "parents_valid (memory ?s1)" using pv by (simp add: parents_valid_job_upd)
    show "queues_ok ?s1" using qo by (simp add: queues_ok_def)
    show "valid_ptr (memory ?s1) j" using vj by simp
  qed
  with True show ?thesis by (simp add: Let_def)
qed

lemma chain_total_of:
  "\<forall>j s. wf_mem (memory s) \<longrightarrow> parents_valid (memory s) \<longrightarrow> queues_ok s
      \<longrightarrow> valid_ptr (memory s) j \<longrightarrow> card (last_ones s) < n \<longrightarrow> (\<exists>s'. onFinished n j s = Inr s')"
proof (induction n)
  case 0
  show ?case by simp
next
  case (Suc n)
  show ?case
  proof (intro allI impI)
    fix j s
    assume wf: "wf_mem (memory s)" and pv: "parents_valid (memory s)" and qo: "queues_ok s"
      and vj: "valid_ptr (memory s) j" and c: "card (last_ones s) < Suc n"
    let ?s0 = "s\<lparr> trace := trace s @ [Finished j] \<rparr>"
    have l0: "last_ones ?s0 = last_ones s" by (simp add: last_ones_def the_job_def)
    have "\<exists>s1. (case m_parentJob (the_job ?s0 j) of None \<Rightarrow> Inr ?s0
               | Some p \<Rightarrow> childFinished n p ?s0) = Inr s1"
    proof (cases "m_parentJob (the_job ?s0 j)")
      case None
      then show ?thesis by simp
    next
      case (Some p)
      then have "m_parentJob (job_at (memory s) j) = Some p" by (simp add: the_job_def)
      from parents_validD[OF pv vj this] have vp: "valid_ptr (memory ?s0) p" by simp
      have "\<exists>s1. childFinished n p ?s0 = Inr s1"
      proof (rule chain_total_cf[OF _ _ _ _ vp])
        show "wf_mem (memory ?s0)" using wf by simp
        show "parents_valid (memory ?s0)" using pv by simp
        show "queues_ok ?s0" using qo by (simp add: queues_ok_def)
        show "card (last_ones ?s0) \<le> n" using c l0 by simp
        show "\<exists>s'. onFinished n ja sa = Inr s'"
          if "wf_mem (memory sa)" "parents_valid (memory sa)" "queues_ok sa"
            "valid_ptr (memory sa) ja" "card (last_ones sa) < n" for ja sa
          using Suc.IH that by blast
      qed
      with Some show ?thesis by simp
    qed
    then obtain s1 where s1: "(case m_parentJob (the_job ?s0 j) of None \<Rightarrow> Inr ?s0
               | Some p \<Rightarrow> childFinished n p ?s0) = Inr s1" ..
    have sf: "same_frame ?s0 s1"
    proof (cases "m_parentJob (the_job ?s0 j)")
      case None
      with s1 show ?thesis by (auto simp add: same_frame_refl)
    next
      case (Some p)
      with s1 have "childFinished n p ?s0 = Inr s1" by simp
      with chain_same_frame[of n p ?s0 s1] show ?thesis by blast
    qed
    then have qo1: "queues_ok s1" using qo by (simp add: same_frame_def queues_ok_def)
    have "\<exists>s2. (case m_onFinishedJob (the_job s1 j) of None \<Rightarrow> Inr s1
                    | Some f \<Rightarrow> addJob_ptr (Some f) s1) = Inr s2"
      using addJob_ptr_total[OF qo1] by (cases "m_onFinishedJob (the_job s1 j)") simp_all
    then obtain s2 where s2: "(case m_onFinishedJob (the_job s1 j) of None \<Rightarrow> Inr s1
                    | Some f \<Rightarrow> addJob_ptr (Some f) s1) = Inr s2" ..
    from s1 s2 show "\<exists>s'. onFinished (Suc n) j s = Inr s'"
      by (simp add: Let_def)
  qed
qed

lemma childFinished_total:
  assumes "wf_mem (memory s)" and "parents_valid (memory s)" and "queues_ok s"
    and "valid_ptr (memory s) j" and "card (last_ones s) \<le> n"
  shows "\<exists>s'. childFinished n j s = Inr s'"
proof (rule chain_total_cf[OF _ assms])
  show "\<exists>s'. onFinished n ja sa = Inr s'"
    if "wf_mem (memory sa)" "parents_valid (memory sa)" "queues_ok sa"
      "valid_ptr (memory sa) ja" "card (last_ones sa) < n" for ja sa
    using chain_total_of[of n] that by blast
qed

text \<open>The constructor establishes the invariant.\<close>

lemma JobMemory_new_ok: "wf_mem (JobMemory_new u) \<and> parents_valid (JobMemory_new u)"
proof -
  have "job_at (JobMemory_new u) r = Job_new u" if "valid_ptr (JobMemory_new u) r" for r
  proof -
    from that have "fst r = 0" and "snd r < m_listLength"
      by (auto simp add: valid_ptr_def JobMemory_new_def JobPool_new_def)
    then show ?thesis by (simp add: JobMemory_new_def job_at_def pool_job_new)
  qed
  then show ?thesis
    by (auto simp add: parents_valid_def wf_mem_def JobMemory_new_def wf_pool_new Job_new_def)
qed

lemma JobSystem_new_inv:
  assumes "JobSystem_new tids numPools u rnd = Inr s"
  shows "sys_inv s \<and> (tids \<noteq> [] \<longrightarrow> queues_ok s) \<and> trace s = [] \<and> m_numJobs s = 0"
proof -
  from assms obtain M where r: "resetPool (numPools - 1) (JobMemory_new u) = Inr M"
    and s: "s = \<lparr> m_threads = tids,
                m_jobPointers = replicate (length tids) None,
                m_threadIndexMap = map_of (zip tids (map of_nat [0 ..< length tids])),
                m_terminate = False,
                m_jobQueues = replicate (length tids) JobQueue_new,
                m_numJobs = 0, memory = M, rand_seq = rnd, rand_pos = 0, trace = [] \<rparr>"
    by (auto simp add: JobSystem_new_def split: sum.splits)
  from JobMemory_new_ok[of u] resetPool_ok[OF _ _ r] have "wf_mem M" "parents_valid M" by blast+
  then show ?thesis
    by (simp add: s sys_inv_def queues_ok_def list_all_length)
qed

section \<open>The work queue\<close>

lemma pops_all: "pops (length (m_queue q)) q = (m_queue q, q\<lparr> m_queue := [] \<rparr>)"
proof (induction "m_queue q" arbitrary: q)
  case Nil
  then show ?case by simp
next
  case (Cons x xs)
  from Cons.hyps(2) have len: "length (m_queue q) = Suc (length xs)"
    by (metis length_Cons)
  have "xs = m_queue (q\<lparr> m_queue := xs \<rparr>)" by simp
  from Cons.hyps(1)[OF this]
  have ih: "pops (length xs) (q\<lparr> m_queue := xs \<rparr>) = (xs, q\<lparr> m_queue := [] \<rparr>)" by simp
  show ?case using Cons.hyps(2)[symmetric] ih by (simp add: len pop_def)
qed

text \<open>
  Claim C7. \<^verbatim>\<open>steal\<close> returns the same pointer and leaves the same queue as \<^verbatim>\<open>pop\<close>,
  for every queue: both take the front element, and both return null and change
  nothing on an empty queue.
\<close>

theorem steal_is_pop:
  "steal q = pop q
   \<and> (m_queue q = [] \<longrightarrow> steal q = (None, q))
   \<and> (m_queue q \<noteq> [] \<longrightarrow> steal q = (hd (m_queue q), q\<lparr> m_queue := tl (m_queue q) \<rparr>))"
  by (simp add: steal_def pop_def)

theorem steal_is_pop_witness:
  "steal \<lparr> m_queue = [Some (0, 1), Some (0, 2)] \<rparr> = (Some (0, 1), \<lparr> m_queue = [Some (0, 2)] \<rparr>)
   \<and> steal \<lparr> m_queue = [] \<rparr> = (None, \<lparr> m_queue = [] \<rparr>)"
  using steal_is_pop[of "\<lparr> m_queue = [Some (0, 1), Some (0, 2)] \<rparr>"]
    steal_is_pop[of "\<lparr> m_queue = [] \<rparr>"]
  by (simp add: pop_def)

text \<open>
  Claim C8. A queue is first in, first out: after \<open>a\<close> and then \<open>b\<close> are pushed on a
  queue, successive pops return what the queue held before, in order, then \<open>a\<close>, then
  \<open>b\<close>, and leave the queue empty; a pop on the empty queue returns null and leaves it
  empty.
\<close>

theorem queue_fifo:
  "pops (length (m_queue q) + 2) (push b (push a q))
     = (m_queue q @ [a, b], q\<lparr> m_queue := [] \<rparr>)
   \<and> pop (q\<lparr> m_queue := [] \<rparr>) = (None, q\<lparr> m_queue := [] \<rparr>)"
proof -
  have "length (m_queue (push b (push a q))) = length (m_queue q) + 2"
    by (simp add: push_def)
  moreover have "m_queue (push b (push a q)) = m_queue q @ [a, b]"
    by (simp add: push_def)
  moreover have "(push b (push a q))\<lparr> m_queue := [] \<rparr> = q\<lparr> m_queue := [] \<rparr>"
    by (simp add: push_def)
  ultimately show ?thesis
    using pops_all[of "push b (push a q)"] by (simp add: pop_def)
qed

section \<open>Evaluating the example states\<close>

lemma sys0_new: "JobSystem_new [7] 2 u_avail (\<lambda>_. 0) = Inr sys0"
  by (simp add: JobSystem_new_def resetPool_def JobMemory_new_def JobPool_new_def sys0_def
      Let_def list_update_code fun_eq_iff)

lemma allocateJob_probe_1:
  "allocateJob_probe (Suc 0) p M =
     (case getNextJob p M of
        Inl e \<Rightarrow> Inl e
      | Inr (pJob, M1) \<Rightarrow>
          if m_available (job_at M1 pJob) then Inr (pJob, M1) else Inl OutOfFuel)"
  by (simp split: sum.splits prod.splits)

lemma steal_loop_skip:
  "pJob \<noteq> None \<or> length (m_threads s) \<le> 1 \<Longrightarrow> steal_loop n ti pJob s = Inr (pJob, s)"
  by (cases n) auto

lemmas mem_eval = allocateJob_def getNextJob_def resetPool_def JobMemory_new_def
  JobPool_new_def JobList_new_def Job_new_def u_avail_def job_at_def job_upd_def pool_job_def
  pool_job_upd_def m_listLength_def Let_def setParentJob_def setFunction_def
  setOnFinished_def then_do_def allocateJob_probe_1

lemmas sys_eval = addJob_def getJobPointer_def getThreadNumber_def addJob_ptr_def rand_def
  push_def JobQueue_new_def threadTask_round_def pop_def steal_loop_skip Job_call_def
  the_job_def upd_job_def call_Function_def exec_call_def playBackPool_def play_back_block_def
  addChildJob_def addChildJob_current_def onFinishedAddJob_def mem_eval

section \<open>resetPool\<close>

text \<open>
  Claim C5. \<^verbatim>\<open>resetPool\<close> on a pool that exists sets the pool's allocation index to 0
  and changes nothing else: the segments and so every field of every slot, the
  playback flag, the count of Jobs left to play and the playback-finished Job of that
  pool, and all other pools, are as before.
\<close>

theorem reset_pool_frame:
  assumes "unat poolNumber < length (m_jobPools M)"
  shows "\<exists>M'. resetPool poolNumber M = Inr M'
           \<and> M' = M\<lparr> m_jobPools := (m_jobPools M)
                     [unat poolNumber := (m_jobPools M ! unat poolNumber)\<lparr> jobIndex := 0 \<rparr>] \<rparr>
           \<and> jobIndex (m_jobPools M' ! unat poolNumber) = 0
           \<and> length (m_jobPools M') = length (m_jobPools M)
           \<and> (\<forall>k. jobLists (m_jobPools M' ! k) = jobLists (m_jobPools M ! k)
                 \<and> numJobsLeftToPlay (m_jobPools M' ! k) = numJobsLeftToPlay (m_jobPools M ! k)
                 \<and> isPlayedBack (m_jobPools M' ! k) = isPlayedBack (m_jobPools M ! k)
                 \<and> pOnPlaybackFinishedJob (m_jobPools M' ! k)
                     = pOnPlaybackFinishedJob (m_jobPools M ! k)
                 \<and> (k \<noteq> unat poolNumber \<longrightarrow> m_jobPools M' ! k = m_jobPools M ! k))
           \<and> (\<forall>p. job_at M' p = job_at M p)"
  using assms
  by (auto simp add: resetPool_def job_at_def pool_job_def nth_list_update)

text \<open>
  The theorem at pool 1 of the state in which playback has begun: the allocation index
  of the pool is 2, slot 0 holds a recorded Job with its child in slot 1, both have
  completed once, and the pool is being played back with two Jobs left to play and the
  playback-finished Job in slot 1 of pool 0. After the reset the index is 0 and the
  rest reads as before.
\<close>

lemma sys_playback_begun_eval:
  "length (m_jobPools (memory sys_playback_begun)) = 2"
  "jobIndex (m_jobPools (memory sys_playback_begun) ! 1) = 2"
  "isPlayedBack (m_jobPools (memory sys_playback_begun) ! 1)"
  "numJobsLeftToPlay (m_jobPools (memory sys_playback_begun) ! 1) = 2"
  "pOnPlaybackFinishedJob (m_jobPools (memory sys_playback_begun) ! 1) = Some (0, 1)"
  "job_at (memory sys_playback_begun) (1, 0) =
     \<lparr> m_available = True, m_poolNumber = 1,
       m_function = Some (Body [AddChildJob (Body [])]), m_parentJob = None,
       m_numUnfinishedChildren = 0, m_onFinishedJob = None,
       m_pFirstChild = Some (1, 1), m_pLastChild = Some (1, 1), m_pNextSibling = None \<rparr>"
  "job_at (memory sys_playback_begun) (1, 1) =
     \<lparr> m_available = True, m_poolNumber = 1,
       m_function = Some (Body []), m_parentJob = Some (1, 0),
       m_numUnfinishedChildren = 0, m_onFinishedJob = None,
       m_pFirstChild = None, m_pLastChild = None, m_pNextSibling = None \<rparr>"
  unfolding sys_playback_begun_def run_playback_begun_def
  by (simp_all add: sys0_def sys_eval)

theorem reset_pool_frame_witness:
  "jobIndex (m_jobPools (memory sys_playback_begun) ! 1) = 2
   \<and> (\<exists>M'. resetPool 1 (memory sys_playback_begun) = Inr M'
          \<and> jobIndex (m_jobPools M' ! 1) = 0
          \<and> isPlayedBack (m_jobPools M' ! 1)
          \<and> numJobsLeftToPlay (m_jobPools M' ! 1) = 2
          \<and> pOnPlaybackFinishedJob (m_jobPools M' ! 1) = Some (0, 1)
          \<and> m_jobPools M' ! 0 = m_jobPools (memory sys_playback_begun) ! 0
          \<and> job_at M' (1, 0) =
               \<lparr> m_available = True, m_poolNumber = 1,
                 m_function = Some (Body [AddChildJob (Body [])]), m_parentJob = None,
                 m_numUnfinishedChildren = 0, m_onFinishedJob = None,
                 m_pFirstChild = Some (1, 1), m_pLastChild = Some (1, 1),
                 m_pNextSibling = None \<rparr>
          \<and> job_at M' (1, 1) =
               \<lparr> m_available = True, m_poolNumber = 1,
                 m_function = Some (Body []), m_parentJob = Some (1, 0),
                 m_numUnfinishedChildren = 0, m_onFinishedJob = None,
                 m_pFirstChild = None, m_pLastChild = None, m_pNextSibling = None \<rparr>)"
proof -
  have h: "unat (1 :: u32) < length (m_jobPools (memory sys_playback_begun))"
    using sys_playback_begun_eval(1) by simp
  from reset_pool_frame[OF h] obtain M' where
    r: "resetPool 1 (memory sys_playback_begun) = Inr M'"
    and i: "jobIndex (m_jobPools M' ! unat (1 :: u32)) = 0"
    and k: "\<And>k. numJobsLeftToPlay (m_jobPools M' ! k)
                  = numJobsLeftToPlay (m_jobPools (memory sys_playback_begun) ! k)
              \<and> isPlayedBack (m_jobPools M' ! k)
                  = isPlayedBack (m_jobPools (memory sys_playback_begun) ! k)
              \<and> pOnPlaybackFinishedJob (m_jobPools M' ! k)
                  = pOnPlaybackFinishedJob (m_jobPools (memory sys_playback_begun) ! k)
              \<and> (k \<noteq> unat (1 :: u32) \<longrightarrow>
                    m_jobPools M' ! k = m_jobPools (memory sys_playback_begun) ! k)"
    and j: "\<And>p. job_at M' p = job_at (memory sys_playback_begun) p"
    by blast
  from i k[of 1] k[of 0] j[of "(1, 0)"] j[of "(1, 1)"] sys_playback_begun_eval
  have "jobIndex (m_jobPools M' ! 1) = 0
          \<and> isPlayedBack (m_jobPools M' ! 1)
          \<and> numJobsLeftToPlay (m_jobPools M' ! 1) = 2
          \<and> pOnPlaybackFinishedJob (m_jobPools M' ! 1) = Some (0, 1)
          \<and> m_jobPools M' ! 0 = m_jobPools (memory sys_playback_begun) ! 0
          \<and> job_at M' (1, 0) = job_at (memory sys_playback_begun) (1, 0)
          \<and> job_at M' (1, 1) = job_at (memory sys_playback_begun) (1, 1)"
    by simp
  with r sys_playback_begun_eval show ?thesis by simp
qed

section \<open>addChildJob during playback\<close>

text \<open>
  Claim C6. When the pool named in the call is being played back, \<^verbatim>\<open>addChildJob\<close>
  returns at once: the state after the call is the state before it, so no Job is
  allocated, nothing is enqueued, and the current Job's child list and counter, the
  scheduler and the pools are untouched.
\<close>

theorem add_child_playback_noop:
  assumes "unat poolNumber < length (m_jobPools (memory s))"
    and "isPlayedBack (m_jobPools (memory s) ! unat poolNumber)"
  shows "addChildJob fuel tid func poolNumber s = Inr s"
  using assms by (simp add: addChildJob_def)

theorem add_child_playback_noop_witness:
  "addChildJob 3 7 (Body []) 1 sys_playing = Inr sys_playing"
proof -
  have h1: "unat (1 :: u32) < length (m_jobPools (memory sys_playing))"
    by (simp add: sys_playing_def)
  have h2: "isPlayedBack (m_jobPools (memory sys_playing) ! unat (1 :: u32))"
    by (simp add: sys_playing_def)
  show ?thesis using add_child_playback_noop[OF h1 h2] by simp
qed

text \<open>
  The overload without a pool number reads the pool from the current Job; called by a
  registered thread that has a current Job, it is the same no-op.
\<close>

lemma add_child_current_playback_noop:
  assumes "m_threadIndexMap s tid = Some i" and "unat i < length (m_jobPointers s)"
    and "m_jobPointers s ! unat i = Some c"
    and "unat (m_poolNumber (the_job s c)) < length (m_jobPools (memory s))"
    and "isPlayedBack (m_jobPools (memory s) ! unat (m_poolNumber (the_job s c)))"
  shows "addChildJob_current fuel tid func s = Inr s"
  using assms
  by (simp add: addChildJob_current_def getJobPointer_def getThreadNumber_def addChildJob_def)

section \<open>Threads that no worker registered\<close>

text \<open>
  Claim C10. For a thread whose identity is not in the map, \<^verbatim>\<open>getThreadNumber\<close>
  returns 0 (the lookup inserts the identity with index 0), so \<^verbatim>\<open>getJobPointer\<close>
  returns the current-job pointer of worker 0; it is null exactly when worker 0 has no
  Job recorded there.
\<close>

theorem unregistered_thread_index:
  assumes "m_threadIndexMap s tid = None" and "m_jobPointers s \<noteq> []"
  shows "fst (getThreadNumber tid s) = 0
         \<and> getJobPointer tid s =
             Inr (m_jobPointers s ! 0, s\<lparr> m_threadIndexMap := (m_threadIndexMap s)(tid \<mapsto> 0) \<rparr>)
         \<and> (\<forall>s'. (getJobPointer tid s = Inr (None, s')) \<longrightarrow> (m_jobPointers s ! 0 = None))"
  using assms by (simp add: getThreadNumber_def getJobPointer_def)

theorem unregistered_thread_index_witness:
  "fst (getThreadNumber 0 sys0) = 0 \<and> (\<exists>s'. getJobPointer 0 sys0 = Inr (None, s'))"
proof -
  have h1: "m_threadIndexMap sys0 0 = None" by (simp add: sys0_def)
  have h2: "m_jobPointers sys0 \<noteq> []" by (simp add: sys0_def)
  show ?thesis using unregistered_thread_index[OF h1 h2] by (simp add: sys0_def)
qed

section \<open>A Job without a function\<close>

text \<open>
  Claim C1, as amended. Calling a Job whose function pointer is null does nothing: the
  call returns at once and the state is unchanged, so the counter of unfinished
  children is not decremented, \<^verbatim>\<open>onFinished\<close> is not run, the parent is not notified, no
  successor is enqueued, the global job count is not decremented and the available
  flag is not set.
\<close>

theorem null_function_noop:
  assumes "m_function (the_job s this) = None"
  shows "Job_call fuel tid this s = Inr s"
  using assms by (simp add: Job_call_def)

theorem null_function_noop_witness:
  "Job_call 3 7 (0, 0) sys_null_queued = Inr sys_null_queued"
proof -
  have h: "m_function (the_job sys_null_queued (0, 0)) = None"
    by (simp add: sys_null_queued_def sys0_def the_job_def mem_eval)
  show ?thesis using null_function_noop[OF h] by simp
qed

text \<open>
  Claim C1, as stated, fails. The worker takes the queued Job without a function and
  calls it: afterwards the global job count is still 1, the counter of unfinished
  children has not moved, and \<^verbatim>\<open>onFinished\<close> has not run (the log is empty, the queue
  holds no successor). A Job given an empty \<^verbatim>\<open>std::function\<close> through \<^verbatim>\<open>addJob\<close> does not
  complete either: the call throws.
\<close>

theorem empty_function_counterexample:
  "then_do (threadTask_round 1 0 sys_null_queued)
     (\<lambda>s. Inr (m_numJobs s, m_numUnfinishedChildren (the_job s (0, 0)),
               m_numUnfinishedChildren (the_job s (0, 0))
                 = m_numUnfinishedChildren (the_job sys_null_queued (0, 0)) - 1,
               trace s, m_jobQueues s))
     = Inr (1, 0, False, [], [\<lparr> m_queue = [] \<rparr>])
   \<and> then_do (addJob 1 0 EmptyFunction 0 sys0) (threadTask_round 1 0) = Inl BadFunctionCall"
  by (simp add: sys_null_queued_def sys0_def sys_eval)

section \<open>Allocation and the available flag\<close>

text \<open>
  Claim C2. The slot that \<^verbatim>\<open>allocateJob\<close> returns was available when the probing loop
  chose it.
\<close>

lemma allocate_returns_available:
  assumes "wf_mem M" and "allocateJob_probe n pn M = Inr (q, M1)"
  shows "m_available (job_at M1 q) \<and> valid_ptr M1 q"
  using allocateJob_probe_props[OF assms] by simp

lemma allocate_leaves_available:
  assumes "wf_mem M" and "allocateJob n None pn M = Inr (q, M')"
  shows "m_available (job_at M' q)"
proof -
  from assms(2) obtain M1 where pr: "allocateJob_probe n pn M = Inr (q, M1)"
    and M': "M' = job_upd q (wipe pn) M1"
    by (auto simp add: allocateJob_None)
  from allocateJob_probe_props[OF assms(1) pr] show ?thesis
    by (simp add: M' job_field_upd wipe_def)
qed

text \<open>
  Claim C2 fails on the code: no statement of \<^verbatim>\<open>allocateJob\<close> clears the flag. A Job is
  allocated in slot 0 of pool 0 and is still marked available when \<^verbatim>\<open>allocateJob\<close>
  returns; the pool is reset while that Job has not run; the next allocation returns
  the same slot.
\<close>

theorem allocate_keeps_available:
  "then_do (allocateJob 1 None 0 (memory sys0)) (\<lambda>(p, M1).
   then_do (resetPool 0 M1) (\<lambda>M2.
   then_do (allocateJob 1 None 0 M2) (\<lambda>(q, M3).
     Inr (p, m_available (job_at M1 p), q))))
   = Inr ((0, 0), True, (0, 0))"
  by (simp add: sys0_def mem_eval)


section \<open>The successor of a Job\<close>

text \<open>
  What one call of \<^verbatim>\<open>onFinishedAddJob\<close> does when the current Job \<open>c\<close> of the calling
  thread has the parent \<open>p\<close> and the call returns: the successor \<open>q\<close> is allocated with
  \<open>p\<close> as its parent, \<open>q\<close> is recorded as the successor of \<open>c\<close>, the counter of \<open>p\<close> is one
  higher, \<open>q\<close> is the last child of \<open>p\<close> (the first one if \<open>p\<close> had none or if the new slot
  is the slot of \<open>p\<close> itself, whose links the allocation has cleared; otherwise linked
  behind the former last child), and the successor is not enqueued yet. When the counter
  of \<open>p\<close> was not 0, the next \<^verbatim>\<open>childFinished\<close> on \<open>p\<close> only takes the counter down by
  one. Nothing here says which Jobs call \<^verbatim>\<open>childFinished\<close> on \<open>p\<close> afterwards.
\<close>

lemma successor_linked_to_parent:
  assumes wf: "wf_mem (memory s)"
    and reg: "m_threadIndexMap s tid = Some i" "unat i < length (m_jobPointers s)"
             "m_jobPointers s ! unat i = Some c"
    and vc: "valid_ptr (memory s) c"
    and par: "m_parentJob (the_job s c) = Some p" and vp: "valid_ptr (memory s) p"
    and pool: "unat (m_poolNumber (the_job s c)) < length (m_jobPools (memory s))"
    and npb: "\<not> isPlayedBack (m_jobPools (memory s) ! unat (m_poolNumber (the_job s c)))"
    and run: "onFinishedAddJob fuel tid func s = Inr s'"
  shows "\<exists>q. m_onFinishedJob (the_job s' c) = Some q
           \<and> valid_ptr (memory s') q \<and> fst q = unat (m_poolNumber (the_job s c))
           \<and> m_function (the_job s' q) = Some func
           \<and> m_parentJob (the_job s' q) = Some p
           \<and> m_numUnfinishedChildren (the_job s' p) = m_numUnfinishedChildren (the_job s p) + 1
           \<and> m_pLastChild (the_job s' p) = Some q
           \<and> (q \<noteq> p \<longrightarrow>
                (m_pFirstChild (the_job s p) = None \<longrightarrow> m_pFirstChild (the_job s' p) = Some q)
                \<and> (m_pFirstChild (the_job s p) \<noteq> None \<longrightarrow>
                     m_pFirstChild (the_job s' p) = m_pFirstChild (the_job s p)
                     \<and> (\<exists>l. m_pLastChild (the_job s p) = Some l
                           \<and> (valid_ptr (memory s) l \<longrightarrow> m_pNextSibling (the_job s' l) = Some q))))
           \<and> (q = p \<longrightarrow> m_pFirstChild (the_job s' p) = Some q)
           \<and> (m_numUnfinishedChildren (the_job s p) \<noteq> 0 \<longrightarrow>
                (\<forall>n. childFinished n p s' =
                   Inr (upd_job p (\<lambda>J. J\<lparr> m_numUnfinishedChildren :=
                                           m_numUnfinishedChildren J - 1 \<rparr>) s')))
           \<and> m_jobQueues s' = m_jobQueues s \<and> m_numJobs s' = m_numJobs s \<and> trace s' = trace s"
proof -
  have gp: "getJobPointer tid s = Inr (Some c, s)"
    using reg by (simp add: getJobPointer_def getThreadNumber_def)
  let ?pn = "m_poolNumber (the_job s c)"
  from run gp pool npb par obtain q M1 where
    al: "allocateJob fuel (Some p) ?pn (memory s) = Inr (q, M1)"
    and s': "s' = s\<lparr> memory := setOnFinished c q (setFunction q func M1) \<rparr>"
    by (auto simp add: onFinishedAddJob_def Let_def split: sum.splits)
  from vp have vp': "valid_ptr (memory s) p" .
  note ap = allocateJob_Some_props[OF wf vp' al]
  from ap have wf1: "wf_mem M1" and vq: "valid_ptr M1 q" by simp_all
  from ap vc have vc1: "valid_ptr M1 c" by blast
  let ?M2 = "setFunction q func M1"
  have wf2: "wf_mem ?M2" and vc2: "valid_ptr ?M2 c" and vq2: "valid_ptr ?M2 q"
    using wf1 vc1 vq by (simp_all add: setFunction_def)
  have mem: "memory s' = setOnFinished c q ?M2" by (simp add: s')
  have f1: "m_onFinishedJob (the_job s' c) = Some q"
    using wf2 vc2 by (simp add: the_job_def mem setOnFinished_def job_at_job_upd)
  have f2: "m_function (the_job s' q) = Some func"
    using wf1 vq by (simp add: the_job_def mem setOnFinished_def setFunction_def job_field_upd job_at_job_upd)
  have keep: "m_parentJob (the_job s' r) = m_parentJob (job_at M1 r)
      \<and> m_numUnfinishedChildren (the_job s' r) = m_numUnfinishedChildren (job_at M1 r)
      \<and> m_pLastChild (the_job s' r) = m_pLastChild (job_at M1 r)
      \<and> m_pFirstChild (the_job s' r) = m_pFirstChild (job_at M1 r)
      \<and> m_pNextSibling (the_job s' r) = m_pNextSibling (job_at M1 r)" for r
    by (simp add: the_job_def mem setOnFinished_def setFunction_def job_field_upd)
  have cf: "childFinished n p s' =
              Inr (upd_job p (\<lambda>J. J\<lparr> m_numUnfinishedChildren := m_numUnfinishedChildren J - 1 \<rparr>) s')"
    if "m_numUnfinishedChildren (the_job s p) \<noteq> 0" for n
  proof -
    from ap keep[of p]
    have "m_numUnfinishedChildren (the_job s' p) = m_numUnfinishedChildren (the_job s p) + 1"
      by (simp add: the_job_def)
    with that have "m_numUnfinishedChildren (the_job s' p) \<noteq> 1" by simp
    then show ?thesis by (simp add: Let_def)
  qed
  have v': "valid_ptr (memory s') q" using vq by (simp add: mem setOnFinished_def setFunction_def)
  have q1: "fst q = unat (m_poolNumber (the_job s c))" using ap by blast
  have q2: "m_parentJob (the_job s' q) = Some p" using ap keep[of q] by simp
  have q3: "m_numUnfinishedChildren (the_job s' p) = m_numUnfinishedChildren (the_job s p) + 1"
    using ap keep[of p] by (simp add: the_job_def)
  have q4: "m_pLastChild (the_job s' p) = Some q" using ap keep[of p] by simp
  have q5: "q \<noteq> p \<longrightarrow> (m_pFirstChild (the_job s p) = None \<longrightarrow> m_pFirstChild (the_job s' p) = Some q)
                \<and> (m_pFirstChild (the_job s p) \<noteq> None \<longrightarrow>
                     m_pFirstChild (the_job s' p) = m_pFirstChild (the_job s p)
                     \<and> (\<exists>l. m_pLastChild (the_job s p) = Some l
                           \<and> (valid_ptr (memory s) l \<longrightarrow> m_pNextSibling (the_job s' l) = Some q)))"
  proof
    assume "q \<noteq> p"
    with ap have "(m_pFirstChild (job_at (memory s) p) = None \<longrightarrow> m_pFirstChild (job_at M1 p) = Some q)
          \<and> (m_pFirstChild (job_at (memory s) p) \<noteq> None \<longrightarrow>
               m_pFirstChild (job_at M1 p) = m_pFirstChild (job_at (memory s) p)
               \<and> (\<exists>l. m_pLastChild (job_at (memory s) p) = Some l
                     \<and> (valid_ptr (memory s) l \<longrightarrow> m_pNextSibling (job_at M1 l) = Some q)))"
      by blast
    then show "(m_pFirstChild (the_job s p) = None \<longrightarrow> m_pFirstChild (the_job s' p) = Some q)
                \<and> (m_pFirstChild (the_job s p) \<noteq> None \<longrightarrow>
                     m_pFirstChild (the_job s' p) = m_pFirstChild (the_job s p)
                     \<and> (\<exists>l. m_pLastChild (the_job s p) = Some l
                           \<and> (valid_ptr (memory s) l \<longrightarrow> m_pNextSibling (the_job s' l) = Some q)))"
      using keep by (simp add: the_job_def[of s] del: split_paired_All split_paired_Ex)
  qed
  have q7: "q = p \<longrightarrow> m_pFirstChild (the_job s' p) = Some q"
    using ap keep[of p] by simp
  have q6: "m_jobQueues s' = m_jobQueues s" "m_numJobs s' = m_numJobs s" "trace s' = trace s"
    by (simp_all add: s')
  have cf': "m_numUnfinishedChildren (the_job s p) \<noteq> 0 \<longrightarrow>
                (\<forall>n. childFinished n p s' =
                   Inr (upd_job p (\<lambda>J. J\<lparr> m_numUnfinishedChildren :=
                                           m_numUnfinishedChildren J - 1 \<rparr>) s'))"
    using cf by blast
  show ?thesis
    by (rule exI[of _ q]) (intro conjI; fact)
qed

lemmas child_running_eval = sys_child_running_def run_parent_child_def sys0_def sys_eval
  valid_ptr_def wf_mem_def wf_pool_def

lemma successor_linked_to_parent_example:
  "\<exists>s' q. onFinishedAddJob 1 7 (Body []) sys_child_running = Inr s'
      \<and> m_onFinishedJob (the_job s' (0, 1)) = Some q
      \<and> m_parentJob (the_job s' q) = Some (0, 0)
      \<and> m_numUnfinishedChildren (the_job s' (0, 0)) = 2
      \<and> m_pLastChild (the_job s' (0, 0)) = Some q"
proof -
  have wf: "wf_mem (memory sys_child_running)"
    by (simp add: child_running_eval)
  have reg: "m_threadIndexMap sys_child_running 7 = Some 0"
    "unat (0 :: u32) < length (m_jobPointers sys_child_running)"
    "m_jobPointers sys_child_running ! unat (0 :: u32) = Some (0, 1)"
    by (simp_all add: child_running_eval)
  have vc: "valid_ptr (memory sys_child_running) (0, 1)"
    by (simp add: child_running_eval)
  have par: "m_parentJob (the_job sys_child_running (0, 1)) = Some (0, 0)"
    by (simp add: child_running_eval)
  have vp: "valid_ptr (memory sys_child_running) (0, 0)"
    by (simp add: child_running_eval)
  have pool: "unat (m_poolNumber (the_job sys_child_running (0, 1)))
                < length (m_jobPools (memory sys_child_running))"
    by (simp add: child_running_eval)
  have npb: "\<not> isPlayedBack (m_jobPools (memory sys_child_running)
                ! unat (m_poolNumber (the_job sys_child_running (0, 1))))"
    by (simp add: child_running_eval)
  have cnt: "m_numUnfinishedChildren (the_job sys_child_running (0, 0)) = 1"
    by (simp add: child_running_eval)
  have "\<exists>s'. onFinishedAddJob 1 7 (Body []) sys_child_running = Inr s'"
    by (simp add: child_running_eval)
  then obtain s' where run: "onFinishedAddJob 1 7 (Body []) sys_child_running = Inr s'" ..
  from successor_linked_to_parent[OF wf reg vc par vp pool npb run] cnt run
  show ?thesis by auto
qed

text \<open>
  Claim C9 fails on the code. \<^verbatim>\<open>allocateJob\<close> clears the successor and the child links
  of the slot it returns, but leaves \<^verbatim>\<open>m_parentJob\<close> of a reused slot as it was when no
  parent is given; the Job in that slot then counts as a finished child of the slot's
  former parent (claim C4 fails by the same defect).

  In the first frame slot 0 of pool 0 has children in slots 1 and 2, all complete, and
  the pool is reset. In the second frame \<open>Q\<close> (slot 0) adds the child \<open>C\<close> (slot 1); then
  the main thread submits \<open>G\<close> without parent, which gets slot 2 and with it the parent
  pointer to slot 0. \<open>C\<close> runs and registers its successor (slot 3): the successor has the
  parent \<open>Q\<close>, and the counter of \<open>Q\<close> goes from 1 to 2, and back to 1 when \<open>C\<close> finishes.
  Then \<open>G\<close> finishes and takes the counter of \<open>Q\<close> to 0, so \<^verbatim>\<open>onFinished\<close> of \<open>Q\<close> runs
  before the successor has been called: the completion of the parent is not deferred
  until the successor completes. The theorem gives the log of the second frame (the log
  without the six events of the first), the parent of \<open>C\<close>, the successor of \<open>C\<close>, the
  parent of that successor, and the parent that slot 2 holds for \<open>G\<close>.
\<close>

theorem parent_finished_before_successor:
  "then_do run_successor_pending
     (\<lambda>s. Inr (drop 6 (trace s),
               m_parentJob (the_job s (0, 1)), m_onFinishedJob (the_job s (0, 1)),
               m_parentJob (the_job s (0, 3)), m_parentJob (the_job s (0, 2))))
   = Inr ([Invoked (0, 0), Invoked (0, 1), Finished (0, 1),
           Invoked (0, 2), Finished (0, 2), Finished (0, 0),
           Invoked (0, 3), Finished (0, 3)],
          Some (0, 0), Some (0, 3), Some (0, 0), Some (0, 0))"
  unfolding run_successor_pending_def run_frame_two_children_def
  by (simp add: sys0_def sys_eval)

text \<open>
  The successor of a Job without parent is allocated without parent, and keeps the
  parent of the slot's former Job as well. After a first frame in which slot 0 of pool 0
  had a child in slot 1, and a reset, \<open>Q\<close> (slot 0, no parent) registers a successor,
  which gets slot 1: its parent pointer is slot 0, although \<open>Q\<close> has none; when the
  successor finishes, the counter of \<open>Q\<close>, which is 0 since \<open>Q\<close> completed, is taken
  below 0.
\<close>

lemma successor_of_root_has_parent:
  "then_do run_successor_of_root
     (\<lambda>s. Inr (drop 4 (trace s),
               m_parentJob (the_job s (0, 0)), m_onFinishedJob (the_job s (0, 0)),
               m_parentJob (the_job s (0, 1)),
               m_numUnfinishedChildren (the_job s (0, 0))))
   = Inr ([Invoked (0, 0), Finished (0, 0), Invoked (0, 1), Finished (0, 1)],
          None, Some (0, 1), Some (0, 0), - 1)"
  unfolding run_successor_of_root_def run_frame_one_child_def
  by (simp add: sys0_def sys_eval)

section \<open>onFinished and the completion of a Job\<close>

text \<open>
  What holds within one call. \<^verbatim>\<open>onFinished\<close> of a Job is called from two places only,
  both behind the test that the counter of unfinished children read 1 before its
  decrement. In a state that satisfies the invariant, for a valid Job \<open>j\<close>:
  \<^item> \<^verbatim>\<open>childFinished\<close> on \<open>j\<close> adds exactly one \<open>Finished j\<close> to the log when the counter was 1,
    and none otherwise, although the chain of parents it starts may lead back to \<open>j\<close>;
  \<^item> calling \<open>j\<close> adds no \<open>Finished j\<close> when \<open>j\<close> has no function; otherwise none up to the
    final decrement (\<open>Job_body\<close> is the call up to there), and from there exactly one
    when the counter reads 1 at the final decrement, and none otherwise;
  \<^item> with the queues in order, \<^verbatim>\<open>childFinished\<close> returns: the chain of parents it follows
    is no longer than the number of Jobs whose counter reads 1.
  This bounds the calls of \<^verbatim>\<open>onFinished\<close> by the number of times the counter is taken
  from 1 to 0; it does not bound that number.
\<close>

lemma finished_once_per_call:
  assumes i: "sys_inv s" and vj: "valid_ptr (memory s) j"
  shows "(childFinished n j s = Inr s' \<longrightarrow>
            count_list (trace s') (Finished j) = count_list (trace s) (Finished j)
              + (if m_numUnfinishedChildren (the_job s j) = 1 then 1 else 0))
       \<and> (Job_call n tid j s = Inr s' \<longrightarrow>
            (case m_function (the_job s j) of
               None \<Rightarrow> count_list (trace s') (Finished j) = count_list (trace s) (Finished j)
             | Some f \<Rightarrow>
                 (\<exists>s2. Job_body n tid j f s = Inr s2
                    \<and> count_list (trace s2) (Finished j) = count_list (trace s) (Finished j)
                    \<and> count_list (trace s') (Finished j) = count_list (trace s2) (Finished j)
                        + (if m_numUnfinishedChildren (the_job s2 j) = 1 then 1 else 0))))
       \<and> (queues_ok s \<and> card (last_ones s) \<le> n \<longrightarrow> (\<exists>s''. childFinished n j s = Inr s''))"
proof (intro conjI impI)
  from i have wf: "wf_mem (memory s)" and pv: "parents_valid (memory s)"
    by (simp_all add: sys_inv_def)
  assume "childFinished n j s = Inr s'"
  from childFinished_count[OF wf pv vj this]
  show "count_list (trace s') (Finished j) = count_list (trace s) (Finished j)
              + (if m_numUnfinishedChildren (the_job s j) = 1 then 1 else 0)" .
next
  assume jc: "Job_call n tid j s = Inr s'"
  show "case m_function (the_job s j) of
               None \<Rightarrow> count_list (trace s') (Finished j) = count_list (trace s) (Finished j)
             | Some f \<Rightarrow>
                 (\<exists>s2. Job_body n tid j f s = Inr s2
                    \<and> count_list (trace s2) (Finished j) = count_list (trace s) (Finished j)
                    \<and> count_list (trace s') (Finished j) = count_list (trace s2) (Finished j)
                        + (if m_numUnfinishedChildren (the_job s2 j) = 1 then 1 else 0))"
  proof (cases "m_function (the_job s j)")
    case None
    with jc show ?thesis by (simp add: Job_call_split)
  next
    case (Some f)
    with jc obtain s2 where jb: "Job_body n tid j f s = Inr s2"
      and cf: "childFinished n j s2 = Inr s'"
      by (auto simp add: Job_call_split split: sum.splits)
    note p = Job_body_props[OF jb i vj]
    from p(1) have wf: "wf_mem (memory s2)" and pv: "parents_valid (memory s2)"
      by (simp_all add: sys_inv_def)
    from childFinished_count[OF wf pv p(2) cf] p(3) jb Some show ?thesis by simp
  qed
next
  from i have wf: "wf_mem (memory s)" and pv: "parents_valid (memory s)"
    by (simp_all add: sys_inv_def)
  assume "queues_ok s \<and> card (last_ones s) \<le> n"
  then have "queues_ok s" and "card (last_ones s) \<le> n" by simp_all
  from childFinished_total[OF wf pv this(1) vj this(2)]
  show "\<exists>s''. childFinished n j s = Inr s''" .
qed

lemma sys_child_running_inv: "sys_inv sys_child_running"
  unfolding sys_inv_def parents_valid_def
  apply (simp add: child_running_eval job_at_def pool_job_def)
  apply (auto simp add: nth_list_update less_Suc_eq nth_Cons' split: if_splits)
  done

lemma child_running_ones: "last_ones sys_child_running = {(0, 0), (0, 1)}"
  unfolding last_ones_def
  apply (simp add: child_running_eval job_at_def pool_job_def)
  apply (auto simp add: nth_list_update less_Suc_eq nth_Cons' split: if_splits)
  done

lemma child_running_queues: "queues_ok sys_child_running"
  by (simp add: queues_ok_def child_running_eval)

lemma finished_once_per_call_example:
  "\<exists>s'. childFinished (Suc (Suc 0)) (0, 1) sys_child_running = Inr s'
      \<and> count_list (trace s') (Finished (0, 1)) = 1
      \<and> count_list (trace s') (Finished (0, 0)) = 1"
proof -
  have v: "valid_ptr (memory sys_child_running) (0, 1)"
    by (simp add: child_running_eval)
  have c: "m_numUnfinishedChildren (the_job sys_child_running (0, 1)) = 1"
    by (simp add: child_running_eval)
  have t: "trace sys_child_running = [Invoked (0, 0), Invoked (0, 1)]"
    by (simp add: child_running_eval)
  have k: "card (last_ones sys_child_running) \<le> Suc (Suc 0)"
    by (simp add: child_running_ones)
  note th = finished_once_per_call[OF sys_child_running_inv v, of "Suc (Suc 0)" _ 7]
  from th child_running_queues k
  obtain s' where run: "childFinished (Suc (Suc 0)) (0, 1) sys_child_running = Inr s'"
    by blast
  have "\<exists>s'. childFinished (Suc (Suc 0)) (0, 1) sys_child_running = Inr s'
           \<and> count_list (trace s') (Finished (0, 0)) = 1"
    by (simp add: child_running_eval)
  with run have p: "count_list (trace s') (Finished (0, 0)) = 1" by auto
  from finished_once_per_call[OF sys_child_running_inv v, of "Suc (Suc 0)" s' 7] run c t p
  show ?thesis by simp
qed

text \<open>
  Claim C4 fails on the code. \<^verbatim>\<open>allocateJob\<close> clears the successor and the child links
  of the slot it returns, but writes \<^verbatim>\<open>m_parentJob\<close> only when it is given a parent, so a
  Job allocated without parent in a slot that was used before keeps the parent of the
  slot's former Job, and decrements that Job's counter when it finishes.

  In the first frame slot 0 of pool 0 has a child in slot 1, both complete, and the pool
  is reset. In the second frame the main thread submits \<open>Q\<close> (slot 0), whose body adds
  the child \<open>C\<close> (slot 2), and \<open>G\<close> (slot 1, submitted without parent); the body of \<open>C\<close>
  registers a successor (slot 3, with parent \<open>Q\<close>). The worker runs \<open>Q\<close>, whose counter
  stays at 1 for \<open>C\<close>. It runs \<open>G\<close>, which finishes and, through the parent pointer left
  in slot 1, takes the counter of \<open>Q\<close> from 1 to 0: \<^verbatim>\<open>onFinished\<close> of \<open>Q\<close> runs while \<open>C\<close>
  has not started. It runs \<open>C\<close>: the successor takes the counter of \<open>Q\<close> back to 1, and
  when \<open>C\<close> finishes the counter goes from 1 to 0 again and \<^verbatim>\<open>onFinished\<close> of \<open>Q\<close> runs a
  second time. In the log of the second frame (the log without the four events of the
  first) \<open>Q\<close> is called once and finished twice, and the count of Jobs in the system,
  0 when the frame began, ends one below 0. The theorem gives the log of the first
  frame, the log of the second, the numbers of calls and of completions of slot 0 in the
  second, the parent that slot 1 holds for \<open>G\<close>, and the final count of Jobs.
\<close>

theorem finished_twice_in_reused_slot:
  "then_do run_second_frame
     (\<lambda>s. Inr (take 4 (trace s), drop 4 (trace s),
               count_list (drop 4 (trace s)) (Invoked (0, 0)),
               count_list (drop 4 (trace s)) (Finished (0, 0)),
               m_parentJob (the_job s (0, 1)), m_numJobs s))
   = Inr ([Invoked (0, 0), Invoked (0, 1), Finished (0, 1), Finished (0, 0)],
          [Invoked (0, 0), Invoked (0, 1), Finished (0, 1), Finished (0, 0),
           Invoked (0, 2), Finished (0, 2), Finished (0, 0),
           Invoked (0, 3), Finished (0, 3)],
          1, 2, Some (0, 0), - 1)"
  unfolding run_second_frame_def run_frame_one_child_def by (simp add: sys0_def sys_eval)

section \<open>Playback\<close>

text \<open>
  What one call of \<^verbatim>\<open>playBackPool\<close> and one pass through the playback block of
  \<^verbatim>\<open>Job::operator()\<close> do. \<^verbatim>\<open>playBackPool\<close> on a pool whose allocation index is not 0
  marks the pool as played back, sets the number of Jobs left to play to that index,
  stores the playback-finished Job and pushes slot 0 of the pool on a queue; the
  playback block enqueues the recorded children, takes the number of Jobs left to play
  down by one, and pushes the playback-finished Job exactly when that number read 1.
\<close>

lemma caller_parent_valid:
  assumes i: "sys_inv s1" and c: "c \<in> set (m_jobPointers s1)"
    and p: "(case c of None \<Rightarrow> None | Some c \<Rightarrow> m_parentJob (the_job s1 c)) = Some p"
  shows "valid_ptr (memory s1) p"
proof -
  from p obtain cc where cc: "c = Some cc" and par: "m_parentJob (the_job s1 cc) = Some p"
    by (cases c) auto
  from c cc have "Some cc \<in> set (m_jobPointers s1)" by simp
  from current_valid[OF i this] have vc: "valid_ptr (memory s1) cc" .
  from i have "parents_valid (memory s1)" by (simp add: sys_inv_def)
  from parents_validD[OF this vc] par show ?thesis by (simp add: the_job_def)
qed

lemma playBackPool_effect:
  assumes i: "sys_inv s" and pb: "playBackPool n tid pp f s = Inr s'"
  shows "unat pp < length (m_jobPools (memory s')) \<and> trace s' = trace s
     \<and> m_numJobs s' = m_numJobs s + 1
     \<and> (jobIndex (m_jobPools (memory s') ! unat pp) \<noteq> 0 \<longrightarrow>
          isPlayedBack (m_jobPools (memory s') ! unat pp)
          \<and> numJobsLeftToPlay (m_jobPools (memory s') ! unat pp)
               = jobIndex (m_jobPools (memory s') ! unat pp)
          \<and> (\<exists>q. pOnPlaybackFinishedJob (m_jobPools (memory s') ! unat pp) = Some q
                 \<and> valid_ptr (memory s') q \<and> m_function (the_job s' q) = Some f)
          \<and> (\<exists>k < length (m_jobQueues s).
                 m_jobQueues s' = (m_jobQueues s)[k := push (Some (unat pp, 0)) (m_jobQueues s ! k)]))
     \<and> (jobIndex (m_jobPools (memory s') ! unat pp) = 0 \<longrightarrow>
          (\<exists>q. valid_ptr (memory s') q \<and> m_function (the_job s' q) = Some f
             \<and> (\<exists>k < length (m_jobQueues s).
                   m_jobQueues s' = (m_jobQueues s)[k := push (Some q) (m_jobQueues s ! k)])))"
proof -
  from playBackPool_inv[OF pb] obtain c s1 q M1 where
    gp: "getJobPointer tid s = Inr (c, s1)"
    and al: "allocateJob n (case c of None \<Rightarrow> None | Some c \<Rightarrow> m_parentJob (the_job s1 c))
           (case c of None \<Rightarrow> 0 | Some c \<Rightarrow> m_poolNumber (the_job s1 c)) (memory s1) = Inr (q, M1)"
    and len: "unat pp < length (m_jobPools (setFunction q f M1))"
    and r: "(jobIndex (m_jobPools (setFunction q f M1) ! unat pp) = 0
           \<and> addJob_ptr (Some q) (s1\<lparr> memory := setFunction q f M1 \<rparr>) = Inr s')
        \<or> (jobIndex (m_jobPools (setFunction q f M1) ! unat pp) \<noteq> 0
           \<and> addJob_ptr (Some (unat pp, 0))
                (s1\<lparr> memory := (setFunction q f M1)\<lparr> m_jobPools :=
                     (m_jobPools (setFunction q f M1))
                       [unat pp := (m_jobPools (setFunction q f M1) ! unat pp)
                            \<lparr> isPlayedBack := True,
                              numJobsLeftToPlay := jobIndex (m_jobPools (setFunction q f M1) ! unat pp),
                              pOnPlaybackFinishedJob := Some q \<rparr>] \<rparr> \<rparr>) = Inr s')"
    by blast
  note g = getJobPointer_props[OF gp]
  from api_stepD(1)[OF api_step_getJobPointer[OF gp] i] have i1: "sys_inv s1" .
  then have wf1: "wf_mem (memory s1)" and pv1: "parents_valid (memory s1)"
    by (simp_all add: sys_inv_def)
  have "c \<in> set (m_jobPointers s1)" using g(9) by (simp add: g(3))
  from allocateJob_ok[OF wf1 pv1 caller_parent_valid[OF i1 this] al]
  have wfM1: "wf_mem M1" and vq: "valid_ptr M1 q" by blast+
  let ?M2 = "setFunction q f M1"
  have fq: "m_function (job_at ?M2 q) = Some f"
    using wfM1 vq by (simp add: setFunction_def job_at_job_upd_same)
  have vq2: "valid_ptr ?M2 q" using vq by (simp add: setFunction_def)
  from r show ?thesis
  proof
    assume a: "jobIndex (m_jobPools ?M2 ! unat pp) = 0
           \<and> addJob_ptr (Some q) (s1\<lparr> memory := ?M2 \<rparr>) = Inr s'"
    then have ad: "addJob_ptr (Some q) (s1\<lparr> memory := ?M2 \<rparr>) = Inr s'" by simp
    note fr = addJob_ptr_frame[OF ad]
    from addJob_ptr_queues[OF ad] have qu: "\<exists>k < length (m_jobQueues s).
                   m_jobQueues s' = (m_jobQueues s)[k := push (Some q) (m_jobQueues s ! k)]"
      by (simp add: g(4))
    have mem: "memory s' = ?M2" using fr(1) by simp
    from a have z: "jobIndex (m_jobPools (memory s') ! unat pp) = 0" by (simp add: mem)
    have "\<exists>q. valid_ptr (memory s') q \<and> m_function (the_job s' q) = Some f
             \<and> (\<exists>k < length (m_jobQueues s).
                   m_jobQueues s' = (m_jobQueues s)[k := push (Some q) (m_jobQueues s ! k)])"
      by (rule exI[of _ q]) (use vq2 fq qu in \<open>simp add: mem the_job_def\<close>)
    with z len fr(2) fr(8) show ?thesis by (simp add: mem g(2) g(5))
  next
    let ?P = "m_jobPools ?M2 ! unat pp"
    let ?P' = "?P\<lparr> isPlayedBack := True, numJobsLeftToPlay := jobIndex ?P,
                    pOnPlaybackFinishedJob := Some q \<rparr>"
    let ?M3 = "?M2\<lparr> m_jobPools := (m_jobPools ?M2)[unat pp := ?P'] \<rparr>"
    assume a: "jobIndex ?P \<noteq> 0
           \<and> addJob_ptr (Some (unat pp, 0)) (s1\<lparr> memory := ?M3 \<rparr>) = Inr s'"
    then have ad: "addJob_ptr (Some (unat pp, 0)) (s1\<lparr> memory := ?M3 \<rparr>) = Inr s'" by simp
    note fr = addJob_ptr_frame[OF ad]
    from addJob_ptr_queues[OF ad] have qu: "\<exists>k < length (m_jobQueues s).
                 m_jobQueues s' = (m_jobQueues s)[k := push (Some (unat pp, 0)) (m_jobQueues s ! k)]"
      by (simp add: g(4))
    have mem: "memory s' = ?M3" using fr(1) by simp
    have jl: "jobLists ?P' = jobLists (m_jobPools ?M2 ! unat pp)" by simp
    have wp: "wf_pool (m_jobPools ?M2 ! unat pp) \<longrightarrow> wf_pool ?P'" by (simp add: wf_pool_def)
    note pf = pool_upd_frame[OF jl wp]
    have P': "m_jobPools (memory s') ! unat pp = ?P'" using len by (simp add: mem)
    have nz: "jobIndex (m_jobPools (memory s') ! unat pp) \<noteq> 0" using a by (simp add: P')
    have c1: "isPlayedBack (m_jobPools (memory s') ! unat pp)" by (simp add: P')
    have c2: "numJobsLeftToPlay (m_jobPools (memory s') ! unat pp)
               = jobIndex (m_jobPools (memory s') ! unat pp)" by (simp add: P')
    have c3: "\<exists>q. pOnPlaybackFinishedJob (m_jobPools (memory s') ! unat pp) = Some q
                 \<and> valid_ptr (memory s') q \<and> m_function (the_job s' q) = Some f"
      by (rule exI[of _ q]) (use vq2 fq pf(1)[of q] pf(2)[of q] len in \<open>simp add: the_job_def mem\<close>)
    have l': "unat pp < length (m_jobPools (memory s'))" using len by (simp add: mem)
    from nz c1 c2 c3 qu l' fr(2) fr(8) show ?thesis by (simp add: g(2) g(5))
  qed
qed

lemma play_back_block_effect:
  assumes pb: "play_back_block n j pn s = Inr s'" and pn: "pn < length (m_jobPools (memory s))"
  shows "\<exists>s1. play_children n j (m_pFirstChild (the_job s j)) s = Inr s1
     \<and> numJobsLeftToPlay (m_jobPools (memory s') ! pn)
          = numJobsLeftToPlay (m_jobPools (memory s) ! pn) - 1
     \<and> (numJobsLeftToPlay (m_jobPools (memory s) ! pn) = 1 \<longrightarrow>
          \<not> isPlayedBack (m_jobPools (memory s') ! pn)
          \<and> (\<exists>k < length (m_jobQueues s1).
                m_jobQueues s' = (m_jobQueues s1)
                  [k := push (pOnPlaybackFinishedJob (m_jobPools (memory s) ! pn))
                          (m_jobQueues s1 ! k)])
          \<and> m_numJobs s' = m_numJobs s1 + 1)
     \<and> (numJobsLeftToPlay (m_jobPools (memory s) ! pn) \<noteq> 1 \<longrightarrow>
          isPlayedBack (m_jobPools (memory s') ! pn) = isPlayedBack (m_jobPools (memory s) ! pn)
          \<and> m_jobQueues s' = m_jobQueues s1 \<and> m_numJobs s' = m_numJobs s1)
     \<and> pOnPlaybackFinishedJob (m_jobPools (memory s') ! pn)
          = pOnPlaybackFinishedJob (m_jobPools (memory s) ! pn)
     \<and> trace s' = trace s"
proof -
  let ?P1 = "\<lambda>s1. m_jobPools (memory s1) ! pn"
  from play_back_block_inv[OF pb pn] obtain s1 where
    pc: "play_children n j (m_pFirstChild (the_job s j)) s = Inr s1"
    and sf: "same_frame s s1" and tr: "trace s1 = trace s"
    and r: "(numJobsLeftToPlay (?P1 s1) = 1
           \<and> addJob_ptr (pOnPlaybackFinishedJob (?P1 s1))
                (s1\<lparr> memory := (memory s1)\<lparr> m_jobPools := (m_jobPools (memory s1))
                      [pn := (?P1 s1)\<lparr> numJobsLeftToPlay := 0, isPlayedBack := False \<rparr>] \<rparr> \<rparr>) = Inr s')
        \<or> (numJobsLeftToPlay (?P1 s1) \<noteq> 1
           \<and> s' = s1\<lparr> memory := (memory s1)\<lparr> m_jobPools := (m_jobPools (memory s1))
                      [pn := (?P1 s1)\<lparr> numJobsLeftToPlay := numJobsLeftToPlay (?P1 s1) - 1 \<rparr>] \<rparr> \<rparr>)"
    by blast
  from sf have f: "numJobsLeftToPlay (?P1 s1) = numJobsLeftToPlay (?P1 s)"
    "isPlayedBack (?P1 s1) = isPlayedBack (?P1 s)"
    "pOnPlaybackFinishedJob (?P1 s1) = pOnPlaybackFinishedJob (?P1 s)"
    and pn1: "pn < length (m_jobPools (memory s1))"
    using pn unfolding same_frame_def by simp_all
  from r show ?thesis
  proof
    let ?s2 = "s1\<lparr> memory := (memory s1)\<lparr> m_jobPools := (m_jobPools (memory s1))
                      [pn := (?P1 s1)\<lparr> numJobsLeftToPlay := 0, isPlayedBack := False \<rparr>] \<rparr> \<rparr>"
    assume a: "numJobsLeftToPlay (?P1 s1) = 1
           \<and> addJob_ptr (pOnPlaybackFinishedJob (?P1 s1)) ?s2 = Inr s'"
    then have ad: "addJob_ptr (pOnPlaybackFinishedJob (?P1 s1)) ?s2 = Inr s'" by simp
    note fr = addJob_ptr_frame[OF ad]
    from addJob_ptr_queues[OF ad] have qu: "\<exists>k < length (m_jobQueues s1).
                m_jobQueues s' = (m_jobQueues s1)
                  [k := push (pOnPlaybackFinishedJob (?P1 s)) (m_jobQueues s1 ! k)]"
      by (simp add: f)
    have P': "m_jobPools (memory s') ! pn = (?P1 s1)\<lparr> numJobsLeftToPlay := 0, isPlayedBack := False \<rparr>"
      using pn1 by (simp add: fr(1))
    from a f have one: "numJobsLeftToPlay (?P1 s) = 1" by simp
    show ?thesis
      apply (rule exI[of _ s1])
      using pc qu one fr(2) fr(8) tr f
      apply (simp add: P')
      done
  next
    assume a: "numJobsLeftToPlay (?P1 s1) \<noteq> 1
           \<and> s' = s1\<lparr> memory := (memory s1)\<lparr> m_jobPools := (m_jobPools (memory s1))
                      [pn := (?P1 s1)\<lparr> numJobsLeftToPlay := numJobsLeftToPlay (?P1 s1) - 1 \<rparr>] \<rparr> \<rparr>"
    then have s': "s' = s1\<lparr> memory := (memory s1)\<lparr> m_jobPools := (m_jobPools (memory s1))
                      [pn := (?P1 s1)\<lparr> numJobsLeftToPlay := numJobsLeftToPlay (?P1 s1) - 1 \<rparr>] \<rparr> \<rparr>"
      by simp
    from a f have ne: "numJobsLeftToPlay (?P1 s) \<noteq> 1" by simp
    show ?thesis
      apply (rule exI[of _ s1])
      using pc ne tr f pn1
      apply (simp add: s')
      done
  qed
qed

text \<open>
  With one recorded root the playback ends. Slot 0 of pool 1 and its child in slot 1
  are recorded; the playback calls both bodies again (the child is enqueued from the
  recorded child list, the \<^verbatim>\<open>addChildJob\<close> in the body being skipped), the second call
  reads one Job left to play, ends the playback and enqueues the playback-finished Job,
  slot 1 of pool 0, which is called once.
\<close>

lemma playback_root_with_child:
  "then_do run_playback_done
     (\<lambda>s. Inr (trace s, concat (map m_queue (m_jobQueues s)), m_numJobs s,
               map (\<lambda>P. (jobIndex P, numJobsLeftToPlay P, isPlayedBack P, pOnPlaybackFinishedJob P))
                 (m_jobPools (memory s)),
               count_list (trace s) (Invoked (0, 1))))
   = Inr ([Invoked (1, 0), Invoked (1, 1), Finished (1, 1), Finished (1, 0),
           Invoked (0, 0), Finished (0, 0),
           Invoked (1, 0), Invoked (1, 1), Finished (1, 1), Finished (1, 0),
           Invoked (0, 1), Finished (0, 1)],
          [], 0, [(2, 0, False, None), (2, 0, False, Some (0, 1))], 1)"
  unfolding run_playback_done_def run_playback_begun_def by (simp add: sys0_def sys_eval)

text \<open>
  Claim C3 fails on the code. Three Jobs are recorded in pool 1: slot 0, its child in
  slot 2, and a second Job without parent in slot 1; each body is called once in the
  recording (the first six events of the log). A Job of pool 0 then plays pool 1 back.
  \<^verbatim>\<open>playBackPool\<close> sets three Jobs left to play and enqueues slot 0 only. The playback
  calls the bodies of slot 0 and of its child, two calls for three recorded Jobs; slot 1
  is not called again. When the queue is empty and no Job is outstanding, the pool is
  still marked as played back with one Job left to play, and the playback-finished Job,
  slot 1 of pool 0, has never been called. The theorem gives the log, the content of the
  queue, the count of Jobs in the system, for each pool its allocation index, Jobs left
  to play, playback flag and playback-finished Job, and the numbers of calls of slot 1
  of pool 1 and of the playback-finished Job.
\<close>

theorem playback_skips_second_root:
  "then_do run_playback_second_root
     (\<lambda>s. Inr (trace s, concat (map m_queue (m_jobQueues s)), m_numJobs s,
               map (\<lambda>P. (jobIndex P, numJobsLeftToPlay P, isPlayedBack P, pOnPlaybackFinishedJob P))
                 (m_jobPools (memory s)),
               count_list (trace s) (Invoked (1, 1)), count_list (trace s) (Invoked (0, 1))))
   = Inr ([Invoked (1, 0), Invoked (1, 1), Finished (1, 1), Invoked (1, 2), Finished (1, 2),
           Finished (1, 0),
           Invoked (0, 0), Finished (0, 0),
           Invoked (1, 0), Invoked (1, 2), Finished (1, 2), Finished (1, 0)],
          [], 0, [(2, 0, False, None), (3, 1, True, Some (0, 1))], 1, 0)"
  unfolding run_playback_second_root_def by (simp add: sys0_def sys_eval)

end
